theory Spec2Isabelle
  imports Main "HOL-Library.Multiset" "HOL-Library.Char_ord" "HOL-Library.List_Lexorder"
begin

text \<open>
  A model of the caching server for PGN files: the Express application with the cache,
  the validation of the level, the stale fallback, the clearing of the cache and the
  prefetch (lines 53 to 367 of \<^verbatim>\<open>src/unnamed/part_000\<close>; the line numbers below are
  those of that file). Each handler becomes a function from its request, the behaviour
  of the upstream search, the clock and the cache to the trace of what it sends and the
  cache it leaves.
\<close>

section \<open>Strings and regular expressions of the handlers\<close>

text \<open>
  JavaScript strings are modelled as \<open>string\<close>. The three regular expressions of the
  server, \<^verbatim>\<open>/^\d/\<close>, \<^verbatim>\<open>/^\d+/\<close> and \<^verbatim>\<open>/^[a-zA-Z0-9_]+$/\<close>, are written out as
  functions on character lists. In JavaScript \<^verbatim>\<open>\d\<close> is exactly \<^verbatim>\<open>[0-9]\<close>, and
  \<^verbatim>\<open>$\<close> (without the \<^verbatim>\<open>m\<close> flag) matches only at the very end of the input.
\<close>

definition is_digit :: "char \<Rightarrow> bool" where
  "is_digit c = (c \<in> set ''0123456789'')"

definition is_word_char :: "char \<Rightarrow> bool" where
  "is_word_char c =
     (c \<in> set ''abcdefghijklmnopqrstuvwxyzABCDEFGHIJKLMNOPQRSTUVWXYZ0123456789_'')"

text \<open>\<^verbatim>\<open>/^\d/.test(s)\<close>\<close>

definition starts_with_digit :: "string \<Rightarrow> bool" where
  "starts_with_digit s = (case s of [] \<Rightarrow> False | c # _ \<Rightarrow> is_digit c)"

text \<open>\<^verbatim>\<open>s.match(/^\d+/)\<close>: the maximal leading run of digits, or \<^verbatim>\<open>null\<close> (here \<open>None\<close>).\<close>

definition match_digits :: "string \<Rightarrow> string option" where
  "match_digits s = (case takeWhile is_digit s of [] \<Rightarrow> None | d # ds \<Rightarrow> Some (d # ds))"

text \<open>\<^verbatim>\<open>/^[a-zA-Z0-9_]+$/.test(s)\<close>\<close>

definition valid_level :: "string \<Rightarrow> bool" where
  "valid_level s = (s \<noteq> [] \<and> list_all is_word_char s)"

text \<open>
  \<^verbatim>\<open>s.split(sep)\<close> for a one-character separator: the result is never empty, and the
  empty string splits into one empty segment.
\<close>

fun split_on :: "char \<Rightarrow> string \<Rightarrow> string list" where
  "split_on sep [] = [[]]"
| "split_on sep (c # cs) =
     (if c = sep then [] # split_on sep cs
      else (case split_on sep cs of [] \<Rightarrow> [[c]] | p # ps \<Rightarrow> (c # p) # ps))"

text \<open>
  JavaScript numbers are IEEE doubles. The numbers that arise here are integers, the two
  infinities and \<^verbatim>\<open>NaN\<close>; \<open>Finite k\<close> is the double whose value is the integer \<open>k\<close>.
\<close>

datatype number = Finite int | PosInfinity | NegInfinity | NaN

text \<open>The number of binary digits of a natural number.\<close>

fun bit_length :: "nat \<Rightarrow> nat" where
  "bit_length n = (if n = 0 then 0 else Suc (bit_length (n div 2)))"

declare bit_length.simps [simp del]

text \<open>
  The double nearest to a natural number: numbers of at most 53 binary digits are
  doubles themselves; a longer one keeps its 53 leading binary digits, rounded to the
  nearest, a tie to the even one. \<open>None\<close> is the overflow, from \<open>2^1024\<close> on.
\<close>

definition round_nat :: "nat \<Rightarrow> nat option" where
  "round_nat n =
     (let p = bit_length n
      in if p \<le> 53 then Some n
         else
           (let e = p - 53;
                q = n div 2 ^ e;
                r = n mod 2 ^ e;
                q' = (if 2 ^ e < 2 * r \<or> (2 * r = 2 ^ e \<and> odd q) then q + 1 else q)
            in if 2 ^ 1024 \<le> q' * 2 ^ e then None else Some (q' * 2 ^ e)))"

text \<open>The Number value for an integer, as the language standard defines it.\<close>

definition to_number :: "int \<Rightarrow> number" where
  "to_number x =
     (case round_nat (nat \<bar>x\<bar>) of
        None \<Rightarrow> if x < 0 then NegInfinity else PosInfinity
      | Some v \<Rightarrow> Finite (if x < 0 then - int v else int v))"

text \<open>
  The subtraction of two numbers: the exact difference of two finite numbers, rounded;
  the difference of an infinity and itself is \<^verbatim>\<open>NaN\<close>.
\<close>

fun minus_number :: "number \<Rightarrow> number \<Rightarrow> number" where
  "minus_number (Finite a) (Finite b) = to_number (a - b)"
| "minus_number NaN _ = NaN"
| "minus_number _ NaN = NaN"
| "minus_number PosInfinity PosInfinity = NaN"
| "minus_number NegInfinity NegInfinity = NaN"
| "minus_number PosInfinity _ = PosInfinity"
| "minus_number NegInfinity _ = NegInfinity"
| "minus_number (Finite a) PosInfinity = NegInfinity"
| "minus_number (Finite a) NegInfinity = PosInfinity"

text \<open>The comparison \<^verbatim>\<open><=\<close> of two numbers; it is false when one of them is \<^verbatim>\<open>NaN\<close>.\<close>

fun number_le :: "number \<Rightarrow> number \<Rightarrow> bool" where
  "number_le NaN _ = False"
| "number_le _ NaN = False"
| "number_le NegInfinity _ = True"
| "number_le _ PosInfinity = True"
| "number_le (Finite a) (Finite b) = (a \<le> b)"
| "number_le _ _ = False"

text \<open>
  \<^verbatim>\<open>parseInt(m, 10)\<close> applied to the result of \<^verbatim>\<open>match\<close>: the match array is turned
  into its only element, the digit run, whose integer is turned into a number;
  \<^verbatim>\<open>null\<close> is turned into the text "null" and parses to \<^verbatim>\<open>NaN\<close>. The digit run is
  read in full, as V8 does (the standard lets an implementation read the digits after
  the 20th as zeros).
\<close>

definition digit_val :: "char \<Rightarrow> int" where
  "digit_val c = int (of_char c) - 48"

definition parseInt10 :: "string option \<Rightarrow> number" where
  "parseInt10 m = (case m of None \<Rightarrow> NaN
                   | Some ds \<Rightarrow> to_number (foldl (\<lambda>acc c. 10 * acc + digit_val c) 0 ds))"

text \<open>\<^verbatim>\<open>x || 0\<close> for a number \<open>x\<close>: \<^verbatim>\<open>NaN\<close> and zero are falsy.\<close>

definition or_zero :: "number \<Rightarrow> number" where
  "or_zero x = (case x of NaN \<Rightarrow> Finite 0
                | Finite k \<Rightarrow> if k = 0 then Finite 0 else Finite k
                | _ \<Rightarrow> x)"

text \<open>\<^verbatim>\<open>parseInt(name.match(/^\d+/), 10) || 0\<close>\<close>

definition leading_number :: "string \<Rightarrow> number" where
  "leading_number name = or_zero (parseInt10 (match_digits name))"

text \<open>
  The sort key in the words of the specification, to compare with \<open>leading_number\<close>:
  the maximal leading run of digits of the name read as a base-10 integer, 0 when there
  is none. The value of a digit is its place among the ten digits.
\<close>

definition digit_index :: "char \<Rightarrow> nat" where
  "digit_index c = length (takeWhile (\<lambda>d. d \<noteq> c) ''0123456789'')"

definition spec_leading_integer :: "string \<Rightarrow> nat" where
  "spec_leading_integer name =
     foldl (\<lambda>acc c. 10 * acc + digit_index c) 0 (takeWhile is_digit name)"

text \<open>
  The display name in the words of the specification: what follows the last \<^verbatim>\<open>/\<close> of
  the identifier.
\<close>

definition spec_display_name :: "string \<Rightarrow> string" where
  "spec_display_name ident = rev (takeWhile (\<lambda>c. c \<noteq> CHR ''/'') (rev ident))"


section \<open>Asset descriptors and the classified list\<close>

text \<open>An upstream search result (only the two fields the server reads).\<close>

record resource =
  secure_url :: string
  public_id :: string

text \<open>The object built for every resource and sent to the client.\<close>

record fileInfo =
  url :: string
  filename :: string
  displayName :: string

definition fileInfo_of :: "resource \<Rightarrow> fileInfo" where
  "fileInfo_of file =
     (let filenameParts = split_on CHR ''/'' (public_id file);
          filename = last filenameParts
      in \<lparr>url = secure_url file, filename = public_id file, displayName = filename\<rparr>)"

text \<open>
  The \<^verbatim>\<open>forEach\<close> loop that pushes every file onto \<^verbatim>\<open>numberFiles\<close> or
  \<^verbatim>\<open>letterFiles\<close>; the pair is the two arrays.
\<close>

definition push_file :: "fileInfo list \<times> fileInfo list \<Rightarrow> resource \<Rightarrow> fileInfo list \<times> fileInfo list" where
  "push_file acc file =
     (let fileInfo = fileInfo_of file
      in if starts_with_digit (displayName fileInfo)
         then (fst acc @ [fileInfo], snd acc)
         else (fst acc, snd acc @ [fileInfo]))"

definition partition_files :: "resource list \<Rightarrow> fileInfo list \<times> fileInfo list" where
  "partition_files resources = foldl push_file ([], []) resources"

text \<open>
  \<^verbatim>\<open>Array.prototype.sort(comparefn)\<close>. The language standard requires the sort to be
  stable, and for a consistent comparator it fixes the result: the stable sorted
  permutation of the array. That permutation is computed here by insertion; an element
  is put in front of the first element it does not compare greater than.
\<close>

fun js_insert :: "('a \<Rightarrow> 'a \<Rightarrow> int) \<Rightarrow> 'a \<Rightarrow> 'a list \<Rightarrow> 'a list" where
  "js_insert cmp x [] = [x]"
| "js_insert cmp x (y # ys) = (if cmp x y \<le> 0 then x # y # ys else y # js_insert cmp x ys)"

fun js_sort :: "('a \<Rightarrow> 'a \<Rightarrow> int) \<Rightarrow> 'a list \<Rightarrow> 'a list" where
  "js_sort cmp [] = []"
| "js_sort cmp (x # xs) = js_insert cmp x (js_sort cmp xs)"

text \<open>
  A consistent comparator in the sense of the language standard: the sign is
  antisymmetric and "not greater" is transitive, so the comparator is a total preorder.
\<close>

definition consistent :: "('a \<Rightarrow> 'a \<Rightarrow> int) \<Rightarrow> bool" where
  "consistent cmp \<longleftrightarrow>
     (\<forall>a b. (cmp a b < 0) = (0 < cmp b a)) \<and>
     (\<forall>a b c. cmp a b \<le> 0 \<and> cmp b c \<le> 0 \<longrightarrow> cmp a c \<le> 0)"

text \<open>
  What the sort reads from the result of a comparator that returns a number: its sign,
  with \<^verbatim>\<open>NaN\<close> taken as zero.
\<close>

fun sort_sign :: "number \<Rightarrow> int" where
  "sort_sign (Finite k) = sgn k"
| "sort_sign PosInfinity = 1"
| "sort_sign NegInfinity = - 1"
| "sort_sign NaN = 0"

definition sort_compare :: "('a \<Rightarrow> 'a \<Rightarrow> number) \<Rightarrow> 'a \<Rightarrow> 'a \<Rightarrow> int" where
  "sort_compare comparefn x y = sort_sign (comparefn x y)"

text \<open>The two comparators of the server.\<close>

definition compare_numbers :: "fileInfo \<Rightarrow> fileInfo \<Rightarrow> number" where
  "compare_numbers a b =
     (let numA = leading_number (displayName a);
          numB = leading_number (displayName b)
      in minus_number numA numB)"

text \<open>
  \<^verbatim>\<open>String.prototype.localeCompare\<close> depends on the collation of the host's locale; it
  is a parameter of the model.
\<close>

definition compare_names :: "(string \<Rightarrow> string \<Rightarrow> int) \<Rightarrow> fileInfo \<Rightarrow> fileInfo \<Rightarrow> int" where
  "compare_names localeCompare a b = localeCompare (displayName a) (displayName b)"

text \<open>Lines 162 to 196 of the server: partition, sort both arrays, concatenate.\<close>

definition classify :: "(string \<Rightarrow> string \<Rightarrow> int) \<Rightarrow> resource list \<Rightarrow> fileInfo list" where
  "classify localeCompare resources =
     (let (numberFiles, letterFiles) = partition_files resources
      in js_sort (sort_compare compare_numbers) numberFiles
         @ js_sort (compare_names localeCompare) letterFiles)"

text \<open>
  To feed a classified list to the classifier again, every entry is read back as a
  resource: its \<open>filename\<close> is the public id and its \<open>url\<close> the secure URL.
\<close>

definition as_resource :: "fileInfo \<Rightarrow> resource" where
  "as_resource f = \<lparr>secure_url = url f, public_id = filename f\<rparr>"

text \<open>
  A sample collation for concrete evaluations: comparison of the strings by character
  codes.
\<close>

definition ordinal_compare :: "string \<Rightarrow> string \<Rightarrow> int" where
  "ordinal_compare a b = (if a < b then - 1 else if a = b then 0 else 1)"

definition is_number_file :: "fileInfo \<Rightarrow> bool" where
  "is_number_file f = starts_with_digit (displayName f)"

text \<open>The example of the specification: four descriptors of one folder.\<close>

definition example_resources :: "resource list" where
  "example_resources =
     [\<lparr>secure_url = ''u1'', public_id = ''folderA/10_game''\<rparr>,
      \<lparr>secure_url = ''u2'', public_id = ''folderA/2_game''\<rparr>,
      \<lparr>secure_url = ''u3'', public_id = ''folderA/bishop''\<rparr>,
      \<lparr>secure_url = ''u4'', public_id = ''folderA/apple''\<rparr>]"

text \<open>
  Two descriptors whose digit runs have 16 digits: \<open>9007199254740993\<close> is
  \<open>2^53 + 1\<close>, which is no double.
\<close>

definition long_run_resources :: "resource list" where
  "long_run_resources =
     [\<lparr>secure_url = ''u1'', public_id = ''f/9007199254740993_a''\<rparr>,
      \<lparr>secure_url = ''u2'', public_id = ''f/9007199254740992_b''\<rparr>]"


section \<open>The cache store\<close>

text \<open>
  Modelled from the spec: the cache store \<^verbatim>\<open>fileCache\<close> is an instance of the
  node-cache package, which is not among the sources of the repository. The model
  follows sections 3 and 4.2 of the specification: a mapping from keys to classified
  lists with \<^verbatim>\<open>get\<close>, \<^verbatim>\<open>set\<close>, \<^verbatim>\<open>delete\<close>, \<^verbatim>\<open>clear\<close> and \<^verbatim>\<open>has\<close>; an entry expires
  12 hours after it was last set, and an expired entry is absent for \<^verbatim>\<open>get\<close> and
  \<^verbatim>\<open>has\<close>. An entry is removed by the sweep, by \<^verbatim>\<open>delete\<close> and by \<^verbatim>\<open>clear\<close> only: a
  lookup removes nothing, and an expired entry stays in the store until one of the three
  removes it. The server creates the store with \<^verbatim>\<open>stdTTL: 43200\<close> (seconds). The clock
  \<^verbatim>\<open>Date.now()\<close> is the argument \<open>now\<close> of the operations, in milliseconds. The sweep
  runs on a timer between requests and is no part of a handler. Every lookup returns
  its answer together with the store as it leaves it.
\<close>

text \<open>
  Modelled from the spec: a stored list with the time at which it expires, in
  milliseconds, \<open>0\<close> for an entry that never expires.
\<close>

record entry =
  entry_t :: nat
  entry_v :: "fileInfo list"

type_synonym cache = "string \<rightharpoonup> entry"

text \<open>Modelled from the spec: the time to live of the store, 12 hours in seconds.\<close>

definition stdTTL :: nat where
  "stdTTL = 43200"

text \<open>
  Modelled from the spec: an entry has expired when its time is not \<open>0\<close> and lies
  before the clock; at the very millisecond of its expiry time it is still live.
\<close>

definition expired :: "nat \<Rightarrow> entry \<Rightarrow> bool" where
  "expired now data = (entry_t data \<noteq> 0 \<and> entry_t data < now)"

text \<open>Modelled from the spec: \<^verbatim>\<open>delete(key)\<close>, the package's \<^verbatim>\<open>del\<close>.\<close>

definition nc_del :: "string \<Rightarrow> cache \<Rightarrow> cache" where
  "nc_del key c = c(key := None)"

text \<open>Modelled from the spec: \<^verbatim>\<open>clear()\<close>, the package's \<^verbatim>\<open>flushAll\<close>.\<close>

definition nc_flushAll :: "cache \<Rightarrow> cache" where
  "nc_flushAll c = Map.empty"

text \<open>
  Modelled from the spec: \<^verbatim>\<open>get(key)\<close>, the list or absent (\<open>None\<close>); an expired entry
  is absent.
\<close>

definition nc_get :: "nat \<Rightarrow> string \<Rightarrow> cache \<Rightarrow> fileInfo list option \<times> cache" where
  "nc_get now key c =
     (case c key of
        None \<Rightarrow> (None, c)
      | Some data \<Rightarrow> if expired now data then (None, c) else (Some (entry_v data), c))"

text \<open>Modelled from the spec: \<^verbatim>\<open>has(key)\<close>; an expired entry is absent.\<close>

definition nc_has :: "nat \<Rightarrow> string \<Rightarrow> cache \<Rightarrow> bool \<times> cache" where
  "nc_has now key c =
     (case c key of
        None \<Rightarrow> (False, c)
      | Some data \<Rightarrow> if expired now data then (False, c) else (True, c))"

text \<open>
  Modelled from the spec: \<^verbatim>\<open>set(key, list)\<close> stores the list and starts the time to
  live of the key again.
\<close>

definition nc_set :: "nat \<Rightarrow> string \<Rightarrow> fileInfo list \<Rightarrow> cache \<Rightarrow> cache" where
  "nc_set now key val c = c(key \<mapsto> \<lparr>entry_t = now + stdTTL * 1000, entry_v = val\<rparr>)"


section \<open>Requests, responses and the upstream search\<close>

text \<open>
  What a handler does to the outside is recorded in order: the search it sends to the
  asset store (the text passed to \<^verbatim>\<open>expression\<close>) and the response it sends to the
  client.
\<close>

datatype body =
    Files "fileInfo list"
  | Error string "string option"
  | Success string
  | PrefetchAck string "string list"

record response =
  status :: nat
  headers :: "(string \<times> string) list"
  body :: body

datatype event = Query string | Respond response

definition queries :: "event list \<Rightarrow> string list" where
  "queries evs = concat (map (\<lambda>e. case e of Query q \<Rightarrow> [q] | Respond _ \<Rightarrow> []) evs)"

definition responses :: "event list \<Rightarrow> response list" where
  "responses evs = concat (map (\<lambda>e. case e of Query _ \<Rightarrow> [] | Respond r \<Rightarrow> [r]) evs)"

text \<open>
  The promise returned by \<^verbatim>\<open>execute()\<close>: it never settles (\<open>None\<close>), or it settles
  after some milliseconds, fulfilled with an array of resources, fulfilled with a value
  whose \<^verbatim>\<open>resources\<close> is not such an array, or rejected.
\<close>

datatype reply = Resources "resource list" | Malformed | Rejected

type_synonym upstream = "(reply \<times> nat) option"

text \<open>
  \<^verbatim>\<open>Promise.race([fetchPromise, timeoutPromise])\<close> with the timer of 8000 ms: the
  reply that won the race (\<open>None\<close> when the timer rejected first) and the time that
  passed.
\<close>

definition race :: "upstream \<Rightarrow> reply option \<times> nat" where
  "race up = (case up of
                None \<Rightarrow> (None, 8000)
              | Some (r, d) \<Rightarrow> if d < 8000 then (Some r, d) else (None, 8000))"

definition search_expression :: "string \<Rightarrow> string" where
  "search_expression level = ''folder:'' @ level @ '' AND format:pgn''"


section \<open>GET /api/pgn-files\<close>

definition level_required :: response where
  "level_required = \<lparr>status = 400, headers = [],
     body = Error ''Level is required'' (Some ''Please provide a level parameter'')\<rparr>"

definition invalid_level :: response where
  "invalid_level = \<lparr>status = 400, headers = [],
     body = Error ''Invalid level format''
       (Some ''Level must contain only alphanumeric characters and underscores'')\<rparr>"

definition fetch_failed :: response where
  "fetch_failed = \<lparr>status = 500, headers = [],
     body = Error ''Failed to fetch PGN files''
       (Some ''There was an error retrieving files. Please try again later.'')\<rparr>"

text \<open>
  The \<^verbatim>\<open>catch\<close> block of the handler, entered at time \<open>now\<close> after the search was
  sent.
\<close>

definition pgn_files_catch :: "string \<Rightarrow> nat \<Rightarrow> cache \<Rightarrow> event list \<times> cache" where
  "pgn_files_catch level now fileCache =
     (let (staleCache, c) = nc_get now level fileCache
      in case staleCache of
           Some files \<Rightarrow>
             ([Respond \<lparr>status = 200, headers = [(''X-Served-From-Stale-Cache'', ''true'')],
                        body = Files files\<rparr>], c)
         | None \<Rightarrow> ([Respond fetch_failed], c))"

text \<open>
  The handler: the query parameter \<^verbatim>\<open>level\<close> (a string, \<open>None\<close> when it is
  missing), the behaviour of the upstream search, the time of the request and the cache;
  it returns the trace of the request and the cache it leaves. The request is followed
  on its own: no other request touches the cache while this one waits for its search.
\<close>

definition pgn_files ::
  "(string \<Rightarrow> string \<Rightarrow> int) \<Rightarrow> string option \<Rightarrow> upstream \<Rightarrow> nat \<Rightarrow> cache \<Rightarrow> event list \<times> cache" where
  "pgn_files localeCompare level up now fileCache =
     (case level of
        None \<Rightarrow> ([Respond level_required], fileCache)
      | Some level \<Rightarrow>
          if level = [] then ([Respond level_required], fileCache)
          else if \<not> valid_level level then ([Respond invalid_level], fileCache)
          else
            (let (cachedFiles, c1) = nc_get now level fileCache
             in case cachedFiles of
                  Some files \<Rightarrow>
                    ([Respond \<lparr>status = 200, headers = [], body = Files files\<rparr>], c1)
                | None \<Rightarrow>
                    (let (won, d) = race up;
                         sent = Query (search_expression level)
                     in case won of
                          Some (Resources resources) \<Rightarrow>
                            (let pgnFiles = classify localeCompare resources;
                                 c2 = nc_set (now + d) level pgnFiles c1
                             in ([sent,
                                  Respond \<lparr>status = 200,
                                    headers = [(''Cache-Control'', ''public, max-age=3600'')],
                                    body = Files pgnFiles\<rparr>], c2))
                        | _ \<Rightarrow>
                            (let (evs, c2) = pgn_files_catch level (now + d) c1
                             in (sent # evs, c2)))))"


text \<open>
  The search of a request fails: the timer wins the race, the promise is rejected, or
  the reply is malformed. Each of them enters the \<^verbatim>\<open>catch\<close> block.
\<close>

definition fetch_fails :: "upstream \<Rightarrow> bool" where
  "fetch_fails up = (case fst (race up) of Some (Resources _) \<Rightarrow> False | _ \<Rightarrow> True)"

text \<open>
  A cache in which the level \<^verbatim>\<open>beginner\<close> was populated at time 0 with the
  classified example.
\<close>

definition example_files :: "fileInfo list" where
  "example_files = classify ordinal_compare example_resources"

definition populated :: cache where
  "populated = nc_set 0 ''beginner'' example_files Map.empty"


section \<open>POST /api/clear-cache\<close>

text \<open>
  The fields \<^verbatim>\<open>level\<close> and \<^verbatim>\<open>apiKey\<close> of the request body are strings when they are
  given, and \<^verbatim>\<open>process.env.ADMIN_API_KEY\<close> is a string when it is configured; \<open>None\<close>
  is \<^verbatim>\<open>undefined\<close>. The test \<^verbatim>\<open>if (level)\<close> takes the empty string as not given.
\<close>

definition clear_cache ::
  "string option \<Rightarrow> string option \<Rightarrow> string option \<Rightarrow> cache \<Rightarrow> event list \<times> cache" where
  "clear_cache ADMIN_API_KEY level apiKey fileCache =
     (if apiKey \<noteq> ADMIN_API_KEY
      then ([Respond \<lparr>status = 401, headers = [], body = Error ''Unauthorized'' None\<rparr>], fileCache)
      else (case level of
              Some l \<Rightarrow>
                if l \<noteq> []
                then ([Respond \<lparr>status = 200, headers = [],
                         body = Success (''Cache cleared for '' @ l)\<rparr>], nc_del l fileCache)
                else ([Respond \<lparr>status = 200, headers = [], body = Success ''All cache cleared''\<rparr>],
                      nc_flushAll fileCache)
            | None \<Rightarrow>
                ([Respond \<lparr>status = 200, headers = [], body = Success ''All cache cleared''\<rparr>],
                 nc_flushAll fileCache)))"


section \<open>GET /api/prefetch\<close>

text \<open>
  Every callback of \<^verbatim>\<open>levelsToPrefetch.forEach(async ...)\<close> runs up to its
  \<^verbatim>\<open>await\<close> before the next one starts: the check of the cache and, on a miss, the
  sending of the search. The accumulator holds the searches sent, the positions and
  levels whose replies are awaited, and the cache.
\<close>

definition prefetch_start ::
  "nat \<Rightarrow> string list \<times> (nat \<times> string) list \<times> cache \<Rightarrow> nat \<times> string
     \<Rightarrow> string list \<times> (nat \<times> string) list \<times> cache" where
  "prefetch_start now acc il =
     (let (sent, pending, c) = acc; (i, level) = il; (cached, c') = nc_has now level c
      in if cached then (sent, pending, c')
         else (sent @ [search_expression level], pending @ [(i, level)], c'))"

text \<open>
  The rest of a callback, run at time \<open>time\<close> when its search has settled: a reply
  with resources is classified and stored; anything else throws inside the \<^verbatim>\<open>try\<close>
  and is only logged.
\<close>

definition prefetch_resume ::
  "(string \<Rightarrow> string \<Rightarrow> int) \<Rightarrow> nat \<Rightarrow> cache \<Rightarrow> string \<times> reply \<times> nat \<Rightarrow> cache" where
  "prefetch_resume localeCompare now c lrd =
     (let (level, r, d) = lrd
      in case r of
           Resources resources \<Rightarrow> nc_set (now + d) level (classify localeCompare resources) c
         | _ \<Rightarrow> c)"

text \<open>
  The searches that settle, in the order in which they settle (searches that settle at
  the same time in the order in which they were sent). The search of the callback at
  position \<open>i\<close> behaves as \<open>ups i\<close>; there is no timer in this handler.
\<close>

definition settled :: "(nat \<Rightarrow> upstream) \<Rightarrow> (nat \<times> string) list \<Rightarrow> (string \<times> reply \<times> nat) list" where
  "settled ups pending =
     sort_key (\<lambda>lrd. snd (snd lrd))
       (concat (map (\<lambda>il. case ups (fst il) of
                             None \<Rightarrow> []
                           | Some (r, d) \<Rightarrow> [(snd il, r, d)]) pending))"

definition prefetch ::
  "(string \<Rightarrow> string \<Rightarrow> int) \<Rightarrow> string option \<Rightarrow> (nat \<Rightarrow> upstream) \<Rightarrow> nat \<Rightarrow> cache
     \<Rightarrow> event list \<times> cache" where
  "prefetch localeCompare levels ups now fileCache =
     (let required = \<lparr>status = 400, headers = [], body = Error ''Levels parameter required'' None\<rparr>
      in case levels of
           None \<Rightarrow> ([Respond required], fileCache)
         | Some levels \<Rightarrow>
             if levels = [] then ([Respond required], fileCache)
             else
               (let levelList = split_on CHR '','' levels;
                    levelsToPrefetch = take 5 levelList;
                    ack = \<lparr>status = 200, headers = [],
                           body = PrefetchAck ''Prefetch request received'' levelsToPrefetch\<rparr>;
                    (sent, pending, c1) =
                      foldl (prefetch_start now) ([], [], fileCache)
                        (zip [0..<length levelsToPrefetch] levelsToPrefetch);
                    c2 = foldl (prefetch_resume localeCompare now) c1 (settled ups pending)
                in (Respond ack # map Query sent, c2)))"

text \<open>Lines 258 to 261: the levels of the query string, cut to the first five.\<close>

definition levels_to_prefetch :: "string \<Rightarrow> string list" where
  "levels_to_prefetch s = take 5 (split_on CHR '','' s)"

text \<open>
  The positions and levels whose searches are awaited: those that the check of the
  cache does not find.
\<close>

definition awaited :: "nat \<Rightarrow> cache \<Rightarrow> string list \<Rightarrow> (nat \<times> string) list" where
  "awaited now c ks = filter (\<lambda>ik. \<not> fst (nc_has now (snd ik) c)) (zip [0..<length ks] ks)"

text \<open>
  A prefetch of six levels with the populated cache: the searches for \<^verbatim>\<open>beginner\<close>
  and \<^verbatim>\<open>advanced\<close> are rejected, the one for \<^verbatim>\<open>bad key!\<close> brings the example, the
  others never settle.
\<close>

definition example_levels :: string where
  "example_levels = ''beginner,advanced,bad key!,a,b,c''"

definition example_ups :: "nat \<Rightarrow> upstream" where
  "example_ups i = (if i = 0 then Some (Rejected, 15)
                    else if i = 1 then Some (Rejected, 20)
                    else if i = 2 then Some (Resources example_resources, 30)
                    else None)"


section \<open>The sort\<close>

lemma mset_js_insert: "mset (js_insert cmp x ys) = add_mset x (mset ys)"
  by (induction ys) auto

lemma mset_js_sort: "mset (js_sort cmp xs) = mset xs"
  by (induction xs) (auto simp: mset_js_insert)

lemma set_js_insert: "set (js_insert cmp x ys) = insert x (set ys)"
  by (induction ys) auto

lemma set_js_sort: "set (js_sort cmp xs) = set xs"
  by (induction xs) (auto simp: set_js_insert)

lemma consistent_flip: "consistent cmp \<Longrightarrow> 0 < cmp a b \<Longrightarrow> cmp b a < 0"
  by (simp add: consistent_def)

lemma consistent_trans: "consistent cmp \<Longrightarrow> cmp a b \<le> 0 \<Longrightarrow> cmp b c \<le> 0 \<Longrightarrow> cmp a c \<le> 0"
  unfolding consistent_def by blast

lemma consistent_sym0: "consistent cmp \<Longrightarrow> cmp a b = 0 \<Longrightarrow> cmp b a = 0"
  unfolding consistent_def by (metis less_irrefl linorder_neqE_linordered_idom)

lemma sorted_js_insert:
  assumes "consistent cmp" "sorted_wrt (\<lambda>a b. cmp a b \<le> 0) ys"
  shows "sorted_wrt (\<lambda>a b. cmp a b \<le> 0) (js_insert cmp x ys)"
  using assms(2)
proof (induction ys)
  case Nil
  then show ?case by simp
next
  case (Cons y ys)
  show ?case
  proof (cases "cmp x y \<le> 0")
    case True
    have "\<forall>z\<in>set ys. cmp x z \<le> 0"
      using Cons.prems True consistent_trans[OF assms(1)] by auto
    with True Cons.prems show ?thesis by simp
  next
    case False
    then have "cmp y x \<le> 0" using consistent_flip[OF assms(1), of x y] by simp
    with False Cons show ?thesis by (auto simp: set_js_insert)
  qed
qed

lemma sorted_js_sort:
  "consistent cmp \<Longrightarrow> sorted_wrt (\<lambda>a b. cmp a b \<le> 0) (js_sort cmp xs)"
  by (induction xs) (auto simp: sorted_js_insert)

lemma js_insert_least:
  "\<forall>y\<in>set ys. cmp x y \<le> 0 \<Longrightarrow> js_insert cmp x ys = x # ys"
  by (cases ys) auto

lemma js_sort_sorted_id:
  "sorted_wrt (\<lambda>a b. cmp a b \<le> 0) xs \<Longrightarrow> js_sort cmp xs = xs"
  by (induction xs) (auto simp: js_insert_least)

lemma filter_js_insert_neg:
  "\<not> P x \<Longrightarrow> filter P (js_insert cmp x ys) = filter P ys"
  by (induction ys) auto


section \<open>Numbers\<close>

lemma bit_length_le: "n < 2 ^ k \<Longrightarrow> bit_length n \<le> k"
proof (induction n arbitrary: k rule: bit_length.induct)
  case (1 n)
  show ?case
  proof (cases "n = 0")
    case True
    then show ?thesis by (simp add: bit_length.simps)
  next
    case False
    with "1.prems" obtain j where k: "k = Suc j" by (cases k) auto
    with "1.prems" have "n div 2 < 2 ^ j" by auto
    from "1.IH"[OF False this] show ?thesis
      using False by (subst bit_length.simps) (simp add: k)
  qed
qed

lemma bit_length_lower: "n \<noteq> 0 \<Longrightarrow> 2 ^ (bit_length n - 1) \<le> n"
proof (induction n rule: bit_length.induct)
  case (1 n)
  show ?case
  proof (cases "n div 2 = 0")
    case True
    with "1.prems" have "n = 1" by (simp add: div_eq_0_iff)
    then show ?thesis by (simp add: bit_length.simps)
  next
    case False
    from "1.IH"[OF "1.prems" False] have "2 ^ (bit_length (n div 2) - 1) \<le> n div 2" .
    then have "2 * 2 ^ (bit_length (n div 2) - 1) \<le> n" by simp
    moreover have "bit_length (n div 2) \<noteq> 0"
      using False by (subst bit_length.simps) simp
    then have "2 * 2 ^ (bit_length (n div 2) - 1) = (2::nat) ^ bit_length (n div 2)"
      by (cases "bit_length (n div 2)") simp_all
    moreover have "bit_length n - 1 = bit_length (n div 2)"
      using "1.prems" by (subst bit_length.simps) simp
    ultimately show ?thesis by simp
  qed
qed

lemma round_nat_exact: "n < 2 ^ 53 \<Longrightarrow> round_nat n = Some n"
  using bit_length_le[of n 53] by (simp add: round_nat_def)

lemma round_nat_zero: "round_nat n = Some v \<Longrightarrow> (v = 0) = (n = 0)"
proof -
  assume r: "round_nat n = Some v"
  show ?thesis
  proof (cases "bit_length n \<le> 53")
    case True
    with r show ?thesis by (simp add: round_nat_def)
  next
    case False
    define e where "e = bit_length n - 53"
    have n0: "n \<noteq> 0"
    proof
      assume "n = 0"
      then have "bit_length n = 0" by (simp add: bit_length.simps)
      with False show False by simp
    qed
    have pw: "(2::nat) ^ e \<le> 2 ^ (bit_length n - 1)"
      unfolding e_def by (rule power_increasing) simp_all
    have "2 ^ e \<le> n"
      by (rule order_trans[OF pw bit_length_lower[OF n0]])
    then have q: "0 < n div 2 ^ e" by (simp add: div_greater_zero_iff)
    from r False have "v \<noteq> 0"
      using q by (auto simp: round_nat_def Let_def e_def split: if_splits)
    with n0 show ?thesis by simp
  qed
qed

lemma round_nat_0: "round_nat 0 = Some 0"
  by (simp add: round_nat_exact)

lemma sort_sign_to_number:
  "(sort_sign (to_number x) < 0) = (x < 0)" "(sort_sign (to_number x) = 0) = (x = 0)"
  "(0 < sort_sign (to_number x)) = (0 < x)"
proof -
  show "(sort_sign (to_number x) < 0) = (x < 0)"
    using round_nat_zero[of "nat \<bar>x\<bar>"]
    by (cases "x = 0") (auto simp: to_number_def round_nat_0 split: option.splits)
  show "(sort_sign (to_number x) = 0) = (x = 0)"
    using round_nat_zero[of "nat \<bar>x\<bar>"]
    by (cases "x = 0") (auto simp: to_number_def round_nat_0 split: option.splits)
  show "(0 < sort_sign (to_number x)) = (0 < x)"
    using round_nat_zero[of "nat \<bar>x\<bar>"]
    by (cases "x = 0") (auto simp: to_number_def round_nat_0 split: option.splits)
qed

lemma to_number_exact: "\<bar>x\<bar> < 2 ^ 53 \<Longrightarrow> to_number x = Finite x"
proof -
  assume "\<bar>x\<bar> < 2 ^ 53"
  then have "nat \<bar>x\<bar> < 2 ^ 53" by (simp add: nat_less_iff)
  then show ?thesis
    by (simp add: to_number_def round_nat_exact)
qed

lemma to_number_not_NaN: "to_number x \<noteq> NaN"
  by (simp add: to_number_def split: option.splits)

lemma sign_minus_le:
  "x \<noteq> NaN \<Longrightarrow> y \<noteq> NaN \<Longrightarrow> (sort_sign (minus_number x y) \<le> 0) = number_le x y"
  using sort_sign_to_number(3)[of "a - b" for a b]
  by (cases x; cases y) (auto simp flip: not_less)

lemma sign_minus_less:
  "x \<noteq> NaN \<Longrightarrow> y \<noteq> NaN \<Longrightarrow> (sort_sign (minus_number x y) < 0) = (\<not> number_le y x)"
  by (cases x; cases y) (auto simp: sort_sign_to_number)

lemma sign_minus_greater:
  "x \<noteq> NaN \<Longrightarrow> y \<noteq> NaN \<Longrightarrow> (0 < sort_sign (minus_number x y)) = (\<not> number_le x y)"
  by (cases x; cases y) (auto simp: sort_sign_to_number)

lemma number_le_trans:
  "number_le x y \<Longrightarrow> number_le y z \<Longrightarrow> number_le x z"
  by (cases x; cases y; cases z) auto

lemma number_le_refl: "x \<noteq> NaN \<Longrightarrow> number_le x x"
  by (cases x) auto

section \<open>The sort key\<close>

lemma digit_val_index:
  assumes "is_digit c"
  shows "digit_val c = int (digit_index c)"
  using assms
  apply (simp add: is_digit_def)
  apply (elim disjE)
  apply (simp_all add: digit_val_def digit_index_def)
  done

lemma parse_digits_spec:
  "\<forall>c\<in>set ds. is_digit c \<Longrightarrow>
     foldl (\<lambda>acc c. 10 * acc + digit_val c) (int a) ds
       = int (foldl (\<lambda>acc c. 10 * acc + digit_index c) a ds)"
proof (induction ds arbitrary: a)
  case Nil
  then show ?case by simp
next
  case (Cons d ds)
  have "10 * int a + digit_val d = int (10 * a + digit_index d)"
    using Cons.prems by (simp add: digit_val_index)
  then show ?case
    using Cons.IH[of "10 * a + digit_index d"] Cons.prems by simp
qed

lemma or_zero_to_number: "or_zero (to_number x) = to_number x"
  by (cases "to_number x") (simp_all add: or_zero_def to_number_not_NaN)

lemma to_number_0: "to_number 0 = Finite 0"
  by (simp add: to_number_exact)

lemma leading_number_spec:
  "leading_number name = to_number (int (spec_leading_integer name))"
proof (cases "takeWhile is_digit name")
  case Nil
  then show ?thesis
    by (simp add: leading_number_def match_digits_def parseInt10_def or_zero_def
        spec_leading_integer_def to_number_0)
next
  case (Cons d ds)
  have dig: "\<forall>c\<in>set (d # ds). is_digit c"
    using set_takeWhileD[of _ is_digit name] unfolding Cons by blast
  have "foldl (\<lambda>acc c. 10 * acc + digit_val c) 0 (d # ds)
      = int (foldl (\<lambda>acc c. 10 * acc + digit_index c) 0 (d # ds))"
    using parse_digits_spec[OF dig, of 0] by simp
  then show ?thesis
    by (simp add: leading_number_def match_digits_def parseInt10_def Cons
        spec_leading_integer_def or_zero_to_number del: foldl_Cons)
qed

lemma leading_number_not_NaN: "leading_number name \<noteq> NaN"
  by (simp add: leading_number_spec to_number_not_NaN)

lemma leading_number_exact:
  "spec_leading_integer name < 2 ^ 53 \<Longrightarrow>
     leading_number name = Finite (int (spec_leading_integer name))"
proof -
  assume "spec_leading_integer name < 2 ^ 53"
  then have "\<bar>int (spec_leading_integer name)\<bar> < 2 ^ 53" by simp
  then show ?thesis
    unfolding leading_number_spec by (rule to_number_exact)
qed

lemma compare_numbers_le:
  "(sort_compare compare_numbers a b \<le> 0)
     = number_le (leading_number (displayName a)) (leading_number (displayName b))"
  by (simp add: sort_compare_def compare_numbers_def sign_minus_le leading_number_not_NaN)

lemma compare_numbers_less:
  "(sort_compare compare_numbers a b < 0)
     = (\<not> number_le (leading_number (displayName b)) (leading_number (displayName a)))"
  by (simp add: sort_compare_def compare_numbers_def sign_minus_less leading_number_not_NaN)

lemma compare_numbers_greater:
  "(0 < sort_compare compare_numbers a b)
     = (\<not> number_le (leading_number (displayName a)) (leading_number (displayName b)))"
  by (simp add: sort_compare_def compare_numbers_def sign_minus_greater leading_number_not_NaN)

lemma compare_numbers_same:
  "leading_number (displayName a) = leading_number (displayName b)
     \<Longrightarrow> sort_compare compare_numbers a b \<le> 0"
  by (simp add: compare_numbers_le number_le_refl leading_number_not_NaN)

lemma consistent_compare_numbers: "consistent (sort_compare compare_numbers)"
  unfolding consistent_def
proof (intro conjI allI impI)
  fix a b :: fileInfo
  show "(sort_compare compare_numbers a b < 0) = (0 < sort_compare compare_numbers b a)"
    by (simp add: compare_numbers_less compare_numbers_greater)
next
  fix a b c :: fileInfo
  assume "sort_compare compare_numbers a b \<le> 0 \<and> sort_compare compare_numbers b c \<le> 0"
  then show "sort_compare compare_numbers a c \<le> 0"
    unfolding compare_numbers_le by (blast intro: number_le_trans)
qed


section \<open>The display name\<close>

lemma split_on_not_Nil: "split_on sep s \<noteq> []"
  by (induction s) (auto split: list.splits)

lemma split_on_none: "sep \<notin> set s \<Longrightarrow> split_on sep s = [s]"
  by (induction s) auto

lemma split_on_some: "sep \<in> set s \<Longrightarrow> tl (split_on sep s) \<noteq> []"
  by (induction s) (auto simp: split_on_not_Nil split_on_none split: list.splits)

lemma last_split_on:
  "last (split_on sep s) = rev (takeWhile (\<lambda>c. c \<noteq> sep) (rev s))"
proof (induction s)
  case Nil
  then show ?case by simp
next
  case (Cons c cs)
  show ?case
  proof (cases "c = sep")
    case True
    then show ?thesis
      using Cons.IH by (simp add: split_on_not_Nil takeWhile_append)
  next
    case False
    show ?thesis
    proof (cases "sep \<in> set cs")
      case True
      from split_on_some[OF True] obtain p q ps where ps: "split_on sep cs = p # q # ps"
        by (cases "split_on sep cs"; cases "tl (split_on sep cs)") auto
      show ?thesis
        using Cons.IH False True by (auto simp: ps takeWhile_append)
    next
      case notin: False
      then show ?thesis
        using False by (simp add: split_on_none takeWhile_append)
    qed
  qed
qed

lemma displayName_spec: "displayName (fileInfo_of r) = spec_display_name (public_id r)"
  by (simp add: fileInfo_of_def spec_display_name_def last_split_on)


section \<open>The classifier\<close>

lemma foldl_push_file:
  "foldl push_file (ns, ls) rs =
     (ns @ filter (\<lambda>f. starts_with_digit (displayName f)) (map fileInfo_of rs),
      ls @ filter (\<lambda>f. \<not> starts_with_digit (displayName f)) (map fileInfo_of rs))"
  by (induction rs arbitrary: ns ls) (auto simp: push_file_def Let_def)

lemma partition_files_filter:
  "partition_files rs =
     (filter (\<lambda>f. starts_with_digit (displayName f)) (map fileInfo_of rs),
      filter (\<lambda>f. \<not> starts_with_digit (displayName f)) (map fileInfo_of rs))"
  by (simp add: partition_files_def foldl_push_file)

lemma classify_filter:
  "classify lc rs =
     js_sort (sort_compare compare_numbers) (filter (\<lambda>f. starts_with_digit (displayName f)) (map fileInfo_of rs))
     @ js_sort (compare_names lc) (filter (\<lambda>f. \<not> starts_with_digit (displayName f)) (map fileInfo_of rs))"
  by (simp add: classify_def partition_files_filter)

lemma filter_js_insert_pos:
  assumes "\<And>x y. P x \<Longrightarrow> P y \<Longrightarrow> cmp x y \<le> 0" "P x"
  shows "filter P (js_insert cmp x ys) = x # filter P ys"
  using assms by (induction ys) auto

lemma filter_js_sort_class:
  assumes "\<And>x y. P x \<Longrightarrow> P y \<Longrightarrow> cmp x y \<le> 0"
  shows "filter P (js_sort cmp xs) = filter P xs"
proof (induction xs)
  case Nil
  then show ?case by simp
next
  case (Cons x xs)
  then show ?case
    using filter_js_insert_pos[of P cmp x "js_sort cmp xs", OF assms]
    by (cases "P x") (simp_all add: filter_js_insert_neg)
qed

lemma consistent_compare_names: "consistent lc \<Longrightarrow> consistent (compare_names lc)"
  unfolding consistent_def compare_names_def by blast

lemma sorted_numbers:
  "sorted_wrt (\<lambda>a b. number_le (leading_number (displayName a)) (leading_number (displayName b)))
     (js_sort (sort_compare compare_numbers) xs)"
  using sorted_js_sort[OF consistent_compare_numbers, of xs]
  by (simp add: compare_numbers_le)

lemma example_partition:
  "partition_files example_resources =
     ([\<lparr>url = ''u1'', filename = ''folderA/10_game'', displayName = ''10_game''\<rparr>,
       \<lparr>url = ''u2'', filename = ''folderA/2_game'', displayName = ''2_game''\<rparr>],
      [\<lparr>url = ''u3'', filename = ''folderA/bishop'', displayName = ''bishop''\<rparr>,
       \<lparr>url = ''u4'', filename = ''folderA/apple'', displayName = ''apple''\<rparr>])"
  by (simp add: partition_files_def example_resources_def push_file_def fileInfo_of_def
      starts_with_digit_def is_digit_def)

lemma spec_integer_examples:
  "spec_leading_integer ''10_game'' = 10" "spec_leading_integer ''2_game'' = 2"
  "spec_leading_integer ''apple'' = 0" "spec_leading_integer ''bishop'' = 0"
  by (simp_all add: spec_leading_integer_def is_digit_def digit_index_def)

lemma leading_number_examples:
  "leading_number ''10_game'' = Finite 10" "leading_number ''2_game'' = Finite 2"
  "leading_number ''apple'' = Finite 0" "leading_number ''bishop'' = Finite 0"
  by (simp_all add: leading_number_exact spec_integer_examples)

lemma compare_10_2:
  "\<not> sort_compare compare_numbers
       \<lparr>url = u, filename = f, displayName = ''10_game''\<rparr>
       \<lparr>url = u', filename = f', displayName = ''2_game''\<rparr> \<le> 0"
  by (simp add: compare_numbers_le leading_number_examples)

lemma example_order:
  assumes "consistent lc" "lc ''apple'' ''bishop'' < 0"
  shows "classify lc example_resources =
     [\<lparr>url = ''u2'', filename = ''folderA/2_game'', displayName = ''2_game''\<rparr>,
      \<lparr>url = ''u1'', filename = ''folderA/10_game'', displayName = ''10_game''\<rparr>,
      \<lparr>url = ''u4'', filename = ''folderA/apple'', displayName = ''apple''\<rparr>,
      \<lparr>url = ''u3'', filename = ''folderA/bishop'', displayName = ''bishop''\<rparr>]"
proof -
  have "0 < lc ''bishop'' ''apple''"
    using assms by (simp add: consistent_def)
  then show ?thesis
    by (simp add: classify_def example_partition compare_10_2 compare_names_def)
qed

lemma consistent_ordinal_compare: "consistent ordinal_compare"
  by (auto simp: consistent_def ordinal_compare_def)

lemma example_classified:
  "classify ordinal_compare example_resources =
     [\<lparr>url = ''u2'', filename = ''folderA/2_game'', displayName = ''2_game''\<rparr>,
      \<lparr>url = ''u1'', filename = ''folderA/10_game'', displayName = ''10_game''\<rparr>,
      \<lparr>url = ''u4'', filename = ''folderA/apple'', displayName = ''apple''\<rparr>,
      \<lparr>url = ''u3'', filename = ''folderA/bishop'', displayName = ''bishop''\<rparr>]"
  by (rule example_order[OF consistent_ordinal_compare]) (simp add: ordinal_compare_def)

lemma long_run_integers:
  "spec_leading_integer ''9007199254740993_a'' = 9007199254740993"
  "spec_leading_integer ''9007199254740992_b'' = 9007199254740992"
  by (simp_all add: spec_leading_integer_def is_digit_def digit_index_def)

lemma to_number_long:
  "to_number 9007199254740993 = Finite 9007199254740992"
  "to_number 9007199254740992 = Finite 9007199254740992"
  by (simp_all add: to_number_def round_nat_def bit_length.simps Let_def)

lemma long_run_numbers:
  "leading_number ''9007199254740993_a'' = Finite 9007199254740992"
  "leading_number ''9007199254740992_b'' = Finite 9007199254740992"
  by (simp_all add: leading_number_spec long_run_integers to_number_long)

lemma long_run_classified:
  "classify lc long_run_resources =
     [\<lparr>url = ''u1'', filename = ''f/9007199254740993_a'', displayName = ''9007199254740993_a''\<rparr>,
      \<lparr>url = ''u2'', filename = ''f/9007199254740992_b'', displayName = ''9007199254740992_b''\<rparr>]"
proof -
  have p: "partition_files long_run_resources =
     ([\<lparr>url = ''u1'', filename = ''f/9007199254740993_a'', displayName = ''9007199254740993_a''\<rparr>,
       \<lparr>url = ''u2'', filename = ''f/9007199254740992_b'', displayName = ''9007199254740992_b''\<rparr>],
      [])"
    by (simp add: partition_files_def long_run_resources_def push_file_def fileInfo_of_def
        starts_with_digit_def is_digit_def)
  show ?thesis
    by (simp add: classify_def p compare_numbers_le long_run_numbers)
qed

text \<open>
  Claim C2, amended. For every list of resources and every consistent collation, the
  classified list is its entries whose display name (what follows the last \<^verbatim>\<open>/\<close> of
  the public id) starts with a digit, followed by all the others, and it is a permutation
  of the entries built from the input. The first group is ascending in the number that
  \<^verbatim>\<open>parseInt\<close> returns for the maximal leading digit run: the double nearest to the
  base-10 integer of the run, which is that integer itself below \<open>2^53\<close>. So for
  lists whose digit runs are all below \<open>2^53\<close> the first group is ascending in the
  base-10 integer, with ties in input order, as the claim says. The second group is
  ascending in the collation of the display names. Within each group, entries that
  compare equal stay in their input order. The four descriptors of the example come out
  as 2_game, 10_game, apple, bishop when the collation puts apple before bishop.
\<close>

theorem classify_order:
  assumes "consistent lc"
  shows "classify lc rs = filter is_number_file (classify lc rs) @ filter (\<lambda>f. \<not> is_number_file f) (classify lc rs)
    \<and> mset (classify lc rs) = mset (map fileInfo_of rs)
    \<and> displayName (fileInfo_of r) = spec_display_name (public_id r)
    \<and> leading_number name = to_number (int (spec_leading_integer name))
    \<and> (spec_leading_integer name < 2 ^ 53 \<longrightarrow>
          leading_number name = Finite (int (spec_leading_integer name)))
    \<and> sorted_wrt (\<lambda>a b. number_le (leading_number (displayName a)) (leading_number (displayName b)))
          (filter is_number_file (classify lc rs))
    \<and> (\<forall>v. filter (\<lambda>f. leading_number (displayName f) = v) (filter is_number_file (classify lc rs))
           = filter (\<lambda>f. leading_number (displayName f) = v) (filter is_number_file (map fileInfo_of rs)))
    \<and> ((\<forall>r\<in>set rs. spec_leading_integer (spec_display_name (public_id r)) < 2 ^ 53) \<longrightarrow>
          sorted (map (\<lambda>f. spec_leading_integer (displayName f)) (filter is_number_file (classify lc rs)))
        \<and> (\<forall>n. filter (\<lambda>f. spec_leading_integer (displayName f) = n) (filter is_number_file (classify lc rs))
               = filter (\<lambda>f. spec_leading_integer (displayName f) = n)
                   (filter is_number_file (map fileInfo_of rs))))
    \<and> sorted_wrt (\<lambda>a b. lc (displayName a) (displayName b) \<le> 0) (filter (\<lambda>f. \<not> is_number_file f) (classify lc rs))
    \<and> (\<forall>s. filter (\<lambda>f. lc s (displayName f) = 0) (filter (\<lambda>f. \<not> is_number_file f) (classify lc rs))
           = filter (\<lambda>f. lc s (displayName f) = 0) (filter (\<lambda>f. \<not> is_number_file f) (map fileInfo_of rs)))
    \<and> (lc ''apple'' ''bishop'' < 0 \<longrightarrow>
          map displayName (classify lc example_resources) = [''2_game'', ''10_game'', ''apple'', ''bishop'']
        \<and> map (\<lambda>f. leading_number (displayName f)) (classify lc example_resources)
            = [Finite 2, Finite 10, Finite 0, Finite 0])"
proof -
  define infos where "infos = map fileInfo_of rs"
  define ns where "ns = js_sort (sort_compare compare_numbers) (filter is_number_file infos)"
  define ls where "ls = js_sort (compare_names lc) (filter (\<lambda>f. \<not> is_number_file f) infos)"
  have out: "classify lc rs = ns @ ls"
    by (simp add: classify_filter ns_def ls_def infos_def is_number_file_def[abs_def])
  have fn: "filter is_number_file ns = ns" "filter is_number_file ls = []"
    by (simp_all add: ns_def ls_def set_js_sort)
  have fl: "filter (\<lambda>f. \<not> is_number_file f) ns = []" "filter (\<lambda>f. \<not> is_number_file f) ls = ls"
    by (simp_all add: ns_def ls_def set_js_sort)
  have nums: "filter is_number_file (classify lc rs) = ns"
    and letters: "filter (\<lambda>f. \<not> is_number_file f) (classify lc rs) = ls"
    by (simp_all add: out fn fl)
  have c1: "classify lc rs = ns @ ls" by (rule out)
  have "mset (filter is_number_file infos) + mset (filter (\<lambda>f. \<not> is_number_file f) infos) = mset infos"
    by (induction infos) auto
  then have c2: "mset (classify lc rs) = mset infos"
    by (simp add: out ns_def ls_def mset_js_sort)
  have k1: "displayName (fileInfo_of r) = spec_display_name (public_id r)"
    by (rule displayName_spec)
  have k2: "leading_number name = to_number (int (spec_leading_integer name))"
    by (rule leading_number_spec)
  have k3: "spec_leading_integer name < 2 ^ 53 \<longrightarrow>
          leading_number name = Finite (int (spec_leading_integer name))"
    using leading_number_exact by blast
  have c3: "sorted_wrt (\<lambda>a b. number_le (leading_number (displayName a)) (leading_number (displayName b))) ns"
    unfolding ns_def by (rule sorted_numbers)
  have c5: "filter (\<lambda>f. leading_number (displayName f) = v) ns
      = filter (\<lambda>f. leading_number (displayName f) = v) (filter is_number_file infos)" for v
    unfolding ns_def
    by (rule filter_js_sort_class) (simp add: compare_numbers_same)
  have bounded: "sorted (map (\<lambda>f. spec_leading_integer (displayName f)) ns)
        \<and> (\<forall>n. filter (\<lambda>f. spec_leading_integer (displayName f) = n) ns
               = filter (\<lambda>f. spec_leading_integer (displayName f) = n) (filter is_number_file infos))"
    if b: "\<forall>r\<in>set rs. spec_leading_integer (spec_display_name (public_id r)) < 2 ^ 53"
  proof -
    have key: "leading_number (displayName f) = Finite (int (spec_leading_integer (displayName f)))"
      if "f \<in> set infos" for f
      using that b by (auto simp: infos_def displayName_spec intro: leading_number_exact)
    have sub: "set ns \<subseteq> set infos" by (auto simp: ns_def set_js_sort)
    have "sorted_wrt (\<lambda>a b. spec_leading_integer (displayName a) \<le> spec_leading_integer (displayName b)) ns"
    proof (rule sorted_wrt_mono_rel[rotated, OF c3])
      fix x y
      assume xy: "x \<in> set ns" "y \<in> set ns"
        and le: "number_le (leading_number (displayName x)) (leading_number (displayName y))"
      from xy sub have "x \<in> set infos" "y \<in> set infos" by blast+
      then have "leading_number (displayName x) = Finite (int (spec_leading_integer (displayName x)))"
        and "leading_number (displayName y) = Finite (int (spec_leading_integer (displayName y)))"
        by (simp_all add: key)
      with le show "spec_leading_integer (displayName x) \<le> spec_leading_integer (displayName y)"
        by simp
    qed
    then have s: "sorted (map (\<lambda>f. spec_leading_integer (displayName f)) ns)"
      by (simp add: sorted_map)
    have "filter (\<lambda>f. spec_leading_integer (displayName f) = n) ns
               = filter (\<lambda>f. spec_leading_integer (displayName f) = n) (filter is_number_file infos)" for n
    proof -
      have "filter (\<lambda>f. spec_leading_integer (displayName f) = n) ns
          = filter (\<lambda>f. leading_number (displayName f) = Finite (int n)) ns"
        by (rule filter_cong) (use key sub in auto)
      also have "\<dots> = filter (\<lambda>f. leading_number (displayName f) = Finite (int n)) (filter is_number_file infos)"
        by (rule c5)
      also have "\<dots> = filter (\<lambda>f. spec_leading_integer (displayName f) = n) (filter is_number_file infos)"
        by (rule filter_cong) (use key in auto)
      finally show ?thesis .
    qed
    with s show ?thesis by blast
  qed
  have "sorted_wrt (\<lambda>a b. compare_names lc a b \<le> 0) ls"
    unfolding ls_def by (rule sorted_js_sort[OF consistent_compare_names[OF assms]])
  then have c4: "sorted_wrt (\<lambda>a b. lc (displayName a) (displayName b) \<le> 0) ls"
    by (simp add: compare_names_def)
  have c6: "filter (\<lambda>f. lc s (displayName f) = 0) ls
      = filter (\<lambda>f. lc s (displayName f) = 0) (filter (\<lambda>f. \<not> is_number_file f) infos)" for s
    unfolding ls_def
  proof (rule filter_js_sort_class)
    fix x y :: fileInfo assume "lc s (displayName x) = 0" "lc s (displayName y) = 0"
    then have "lc (displayName x) s \<le> 0" "lc s (displayName y) \<le> 0"
      using consistent_sym0[OF assms] by simp_all
    then show "compare_names lc x y \<le> 0"
      unfolding compare_names_def by (rule consistent_trans[OF assms])
  qed
  have c7: "lc ''apple'' ''bishop'' < 0 \<longrightarrow>
          map displayName (classify lc example_resources) = [''2_game'', ''10_game'', ''apple'', ''bishop'']
        \<and> map (\<lambda>f. leading_number (displayName f)) (classify lc example_resources)
            = [Finite 2, Finite 10, Finite 0, Finite 0]"
    using example_order[OF assms] by (simp add: leading_number_examples)
  show ?thesis
    unfolding nums letters using c1 c2 k1 k2 k3 c3 c5 bounded c4 c6 c7
    unfolding infos_def by blast
qed

theorem classify_order_witness:
  "consistent ordinal_compare \<and> ordinal_compare ''apple'' ''bishop'' < 0
   \<and> spec_leading_integer ''10_game'' < 2 ^ 53
   \<and> leading_number ''10_game'' = Finite 10
   \<and> spec_display_name ''folderA/10_game'' = ''10_game''
   \<and> spec_leading_integer (spec_display_name ''folderA/2_game'') = 2
   \<and> map displayName (classify ordinal_compare example_resources)
       = [''2_game'', ''10_game'', ''apple'', ''bishop'']
   \<and> sorted (map (\<lambda>f. spec_leading_integer (displayName f))
        (filter is_number_file (classify ordinal_compare example_resources)))"
proof -
  have b: "\<forall>r\<in>set example_resources. spec_leading_integer (spec_display_name (public_id r)) < 2 ^ 53"
    by (simp add: example_resources_def spec_display_name_def spec_integer_examples)
  show ?thesis
    using classify_order[OF consistent_ordinal_compare, where rs = example_resources
        and name = "''10_game''" and r = "\<lparr>secure_url = ''u1'', public_id = ''folderA/10_game''\<rparr>"]
      consistent_ordinal_compare b
    by (simp add: ordinal_compare_def spec_integer_examples spec_display_name_def
        to_number_exact)
qed

text \<open>
  The claim C2 as it was stated orders the first group by the base-10 integer of the
  digit run for every list. The two descriptors with runs of 16 digits keep their input
  order, the larger integer first: both runs parse to the same double.
\<close>

theorem long_runs_keep_input_order:
  "map displayName (classify ordinal_compare long_run_resources)
     = [''9007199254740993_a'', ''9007199254740992_b'']
   \<and> filter is_number_file (classify ordinal_compare long_run_resources)
       = classify ordinal_compare long_run_resources
   \<and> map (\<lambda>f. spec_leading_integer (displayName f)) (classify ordinal_compare long_run_resources)
       = [9007199254740993, 9007199254740992]
   \<and> \<not> sorted (map (\<lambda>f. spec_leading_integer (displayName f))
          (filter is_number_file (classify ordinal_compare long_run_resources)))
   \<and> map (\<lambda>f. leading_number (displayName f)) (classify ordinal_compare long_run_resources)
       = [Finite 9007199254740992, Finite 9007199254740992]"
  by (simp add: long_run_classified long_run_integers long_run_numbers is_number_file_def
      starts_with_digit_def is_digit_def)

lemma fileInfo_of_as_resource: "fileInfo_of (as_resource (fileInfo_of r)) = fileInfo_of r"
  by (simp add: fileInfo_of_def as_resource_def Let_def)

text \<open>
  Claim C7. Classifying is idempotent: for every list of resources and every consistent
  collation, the classified list, read back as resources and classified again, is the
  same list in the same order.
\<close>

theorem classify_idempotent:
  assumes "consistent lc"
  shows "classify lc (map as_resource (classify lc rs)) = classify lc rs"
proof -
  define infos where "infos = map fileInfo_of rs"
  define ns where "ns = js_sort (sort_compare compare_numbers) (filter is_number_file infos)"
  define ls where "ls = js_sort (compare_names lc) (filter (\<lambda>f. \<not> is_number_file f) infos)"
  have out: "classify lc rs = ns @ ls"
    by (simp add: classify_filter ns_def ls_def infos_def is_number_file_def[abs_def])
  have "set (ns @ ls) \<subseteq> set infos"
    by (auto simp: ns_def ls_def set_js_sort)
  then have "\<forall>f\<in>set (ns @ ls). fileInfo_of (as_resource f) = f"
    by (auto simp: infos_def fileInfo_of_as_resource)
  then have again: "map fileInfo_of (map as_resource (ns @ ls)) = ns @ ls"
    by (simp add: map_idI)
  have fn: "filter is_number_file ns = ns" "filter is_number_file ls = []"
    by (simp_all add: ns_def ls_def set_js_sort)
  have fl: "filter (\<lambda>f. \<not> is_number_file f) ns = []" "filter (\<lambda>f. \<not> is_number_file f) ls = ls"
    by (simp_all add: ns_def ls_def set_js_sort)
  have sn: "js_sort (sort_compare compare_numbers) ns = ns"
    unfolding ns_def
    by (rule js_sort_sorted_id) (rule sorted_js_sort[OF consistent_compare_numbers])
  have sl: "js_sort (compare_names lc) ls = ls"
    unfolding ls_def
    by (rule js_sort_sorted_id) (rule sorted_js_sort[OF consistent_compare_names[OF assms]])
  have "classify lc (map as_resource (ns @ ls)) = ns @ ls"
    unfolding classify_filter again
    by (simp add: is_number_file_def[symmetric, abs_def] fn fl sn sl)
  then show ?thesis by (simp add: out)
qed

theorem classify_idempotent_witness:
  "consistent ordinal_compare \<and>
   classify ordinal_compare (map as_resource
     [\<lparr>url = ''u2'', filename = ''folderA/2_game'', displayName = ''2_game''\<rparr>,
      \<lparr>url = ''u1'', filename = ''folderA/10_game'', displayName = ''10_game''\<rparr>,
      \<lparr>url = ''u4'', filename = ''folderA/apple'', displayName = ''apple''\<rparr>,
      \<lparr>url = ''u3'', filename = ''folderA/bishop'', displayName = ''bishop''\<rparr>])
   = [\<lparr>url = ''u2'', filename = ''folderA/2_game'', displayName = ''2_game''\<rparr>,
      \<lparr>url = ''u1'', filename = ''folderA/10_game'', displayName = ''10_game''\<rparr>,
      \<lparr>url = ''u4'', filename = ''folderA/apple'', displayName = ''apple''\<rparr>,
      \<lparr>url = ''u3'', filename = ''folderA/bishop'', displayName = ''bishop''\<rparr>]"
  using classify_idempotent[OF consistent_ordinal_compare, of example_resources]
    consistent_ordinal_compare
  by (simp add: example_classified)


section \<open>The cache store: round trip and expiry\<close>

lemma nc_get_set:
  "fst (nc_get later k (nc_set now k L c)) = (if later \<le> now + 43200000 then Some L else None)"
  by (simp add: nc_get_def nc_set_def expired_def stdTTL_def)

lemma nc_has_set:
  "fst (nc_has later k (nc_set now k L c)) = (later \<le> now + 43200000)"
  by (auto simp add: nc_has_def nc_set_def expired_def stdTTL_def)

lemma nc_set_set: "nc_set now2 k L2 (nc_set now k L c) = nc_set now2 k L2 c"
  by (simp add: nc_set_def)

lemma nc_get_fst:
  "fst (nc_get now k c) = (case c k of None \<Rightarrow> None | Some e \<Rightarrow> if expired now e then None else Some (entry_v e))"
  by (simp add: nc_get_def split: option.splits)

lemma nc_get_snd: "snd (nc_get now k c) = c"
  by (simp add: nc_get_def split: option.splits)

lemma nc_has_fst:
  "fst (nc_has now k c) = (case c k of None \<Rightarrow> False | Some e \<Rightarrow> \<not> expired now e)"
  by (simp add: nc_has_def split: option.splits)

lemma nc_has_snd: "snd (nc_has now k c) = c"
  by (simp add: nc_has_def split: option.splits)

lemma nc_get_pair: "nc_get now k c = (fst (nc_get now k c), c)"
  by (simp add: prod_eq_iff nc_get_snd)

lemma expired_mono: "expired now e \<Longrightarrow> now \<le> later \<Longrightarrow> expired later e"
  by (simp add: expired_def)

lemma nc_get_miss_later:
  "fst (nc_get now k c) = None \<Longrightarrow> now \<le> later \<Longrightarrow> fst (nc_get later k c) = None"
  using expired_mono[of now _ later]
  by (auto simp: nc_get_fst split: option.splits if_splits)

text \<open>
  Claim C4. A \<^verbatim>\<open>get\<close> of a key right after \<^verbatim>\<open>set(k, L)\<close> returns \<open>L\<close>. An entry set
  at time \<open>now\<close> is returned by \<^verbatim>\<open>get\<close> and reported by \<^verbatim>\<open>has\<close> at every time up to
  \<open>now\<close> plus 12 hours and is absent for both at every later time; a new \<^verbatim>\<open>set\<close> of
  the key starts the 12 hours again.
\<close>

theorem cache_roundtrip_ttl:
  "fst (nc_get now k (nc_set now k L c)) = Some L
   \<and> fst (nc_get later k (nc_set now k L c)) = (if later \<le> now + 12 * 60 * 60 * 1000 then Some L else None)
   \<and> fst (nc_has later k (nc_set now k L c)) = (later \<le> now + 12 * 60 * 60 * 1000)
   \<and> fst (nc_get later k (nc_set now2 k L2 (nc_set now k L c)))
       = (if later \<le> now2 + 12 * 60 * 60 * 1000 then Some L2 else None)
   \<and> fst (nc_has later k (nc_set now2 k L2 (nc_set now k L c))) = (later \<le> now2 + 12 * 60 * 60 * 1000)"
  by (simp add: nc_get_set nc_has_set nc_set_set)



section \<open>The handler of GET /api/pgn-files\<close>

lemma pgn_files_catch_miss:
  "fst (nc_get now k c) = None \<Longrightarrow> pgn_files_catch k now c = ([Respond fetch_failed], c)"
  using nc_get_pair[of now k c] by (simp add: pgn_files_catch_def)

lemma pgn_files_catch_live:
  "fst (nc_get now k c) = Some files \<Longrightarrow>
     pgn_files_catch k now c
       = ([Respond \<lparr>status = 200, headers = [(''X-Served-From-Stale-Cache'', ''true'')],
                    body = Files files\<rparr>], c)"
  using nc_get_pair[of now k c] by (simp add: pgn_files_catch_def)

lemma fetch_fails_cases:
  "fetch_fails up \<Longrightarrow> (\<forall>rs. fst (race up) \<noteq> Some (Resources rs))"
  by (auto simp: fetch_fails_def split: option.splits reply.splits)

lemma pgn_files_invalid:
  assumes "level = None \<or> level = Some [] \<or> (\<exists>l. level = Some l \<and> \<not> valid_level l)"
  shows "pgn_files lc level up now c
     = ([Respond (if level = None \<or> level = Some [] then level_required else invalid_level)], c)"
proof (cases level)
  case None
  then show ?thesis by (simp add: pgn_files_def)
next
  case (Some l)
  with assms have "l = [] \<or> \<not> valid_level l" by simp
  then show ?thesis
    by (cases "l = []") (simp_all add: pgn_files_def Some)
qed

lemma pgn_files_hit:
  assumes "valid_level l" "fst (nc_get now l c) = Some files"
  shows "pgn_files lc (Some l) up now c
           = ([Respond \<lparr>status = 200, headers = [], body = Files files\<rparr>], c)"
proof -
  have l: "l \<noteq> []" using assms(1) by (simp add: valid_level_def)
  have g: "nc_get now l c = (Some files, c)"
    using assms(2) nc_get_pair[of now l c] by simp
  show ?thesis
    using l assms(1) by (simp add: pgn_files_def g)
qed

lemma pgn_files_failure:
  assumes "valid_level l" "fst (nc_get now l c) = None" "fetch_fails up"
  shows "pgn_files lc (Some l) up now c
           = ([Query (search_expression l), Respond fetch_failed], c)"
proof -
  have l: "l \<noteq> []" using assms(1) by (simp add: valid_level_def)
  have g: "nc_get now l c = (None, c)"
    using assms(2) nc_get_pair[of now l c] by simp
  obtain w d where r: "race up = (w, d)" by (cases "race up")
  have w: "\<forall>rs. w \<noteq> Some (Resources rs)" using fetch_fails_cases[OF assms(3)] r by simp
  have "fst (nc_get (now + d) l c) = None"
    by (rule nc_get_miss_later[OF assms(2)]) simp
  then have c: "pgn_files_catch l (now + d) c = ([Respond fetch_failed], c)"
    by (rule pgn_files_catch_miss)
  show ?thesis
    using l assms(1) w
    by (simp add: pgn_files_def g r c Let_def split: option.splits reply.splits)
qed

lemma pgn_files_success:
  assumes "valid_level l" "fst (nc_get now l c) = None" "up = Some (Resources rs, d)" "d < 8000"
  shows "pgn_files lc (Some l) up now c
           = ([Query (search_expression l),
               Respond \<lparr>status = 200, headers = [(''Cache-Control'', ''public, max-age=3600'')],
                        body = Files (classify lc rs)\<rparr>],
              nc_set (now + d) l (classify lc rs) c)"
proof -
  have l: "l \<noteq> []" using assms(1) by (simp add: valid_level_def)
  have g: "nc_get now l c = (None, c)"
    using assms(2) nc_get_pair[of now l c] by simp
  show ?thesis
    using l assms(1,3,4)
    by (simp add: pgn_files_def g race_def Let_def)
qed

lemma valid_beginner: "valid_level ''beginner''"
  by (simp add: valid_level_def is_word_char_def)

lemma populated_entry:
  "populated ''beginner'' = Some \<lparr>entry_t = 43200000, entry_v = example_files\<rparr>"
  by (simp add: populated_def nc_set_def stdTTL_def)

lemma populated_expired: "fst (nc_get 43200001 ''beginner'' populated) = None"
  by (simp add: populated_def nc_get_set)

lemma populated_live: "fst (nc_get 1000 ''beginner'' populated) = Some example_files"
  by (simp add: populated_def nc_get_set)

lemma populated_del: "populated(''beginner'' := None) = Map.empty"
  by (simp add: populated_def nc_set_def)

lemma rejected_fails: "fetch_fails (Some (Rejected, 10))"
  by (simp add: fetch_fails_def race_def)

text \<open>
  Claim C3. When the level is missing or empty, or has a character that is not a
  letter, a digit or the underscore (as in "bad key!"), the handler answers with status
  400, sends no search to the asset store and leaves the cache as it is.
\<close>

theorem pgn_files_validation:
  assumes "level = None \<or> level = Some []
             \<or> (\<exists>l. level = Some l \<and> (\<exists>ch\<in>set l. \<not> is_word_char ch))"
  shows "pgn_files lc level up now c
           = ([Respond (if level = None \<or> level = Some [] then level_required else invalid_level)], c)
         \<and> queries (fst (pgn_files lc level up now c)) = []
         \<and> map status (responses (fst (pgn_files lc level up now c))) = [400]"
proof -
  have inv: "level = None \<or> level = Some [] \<or> (\<exists>l. level = Some l \<and> \<not> valid_level l)"
    using assms by (auto simp: valid_level_def list_all_iff)
  show ?thesis
    unfolding pgn_files_invalid[OF inv]
    by (simp add: queries_def responses_def level_required_def invalid_level_def)
qed

theorem pgn_files_validation_witness:
  "(\<exists>ch\<in>set ''bad key!''. \<not> is_word_char ch)
   \<and> pgn_files ordinal_compare (Some ''bad key!'') (Some (Resources example_resources, 10)) 0 populated
       = ([Respond invalid_level], populated)
   \<and> pgn_files ordinal_compare None (Some (Resources example_resources, 10)) 0 populated
       = ([Respond level_required], populated)
   \<and> status invalid_level = 400 \<and> status level_required = 400"
proof -
  have bad: "\<exists>ch\<in>set ''bad key!''. \<not> is_word_char ch"
    by (simp add: is_word_char_def)
  show ?thesis
    using pgn_files_validation[of "Some ''bad key!''" ordinal_compare
        "Some (Resources example_resources, 10)" 0 populated]
      pgn_files_validation[of None ordinal_compare "Some (Resources example_resources, 10)" 0 populated]
      bad
    by (simp add: invalid_level_def level_required_def)
qed

text \<open>
  Claim C1 says that a request whose search fails is answered from a stale entry of
  the cache when there is one. The handler does not do that. Here the cache was
  populated for the level \<^verbatim>\<open>beginner\<close> at time 0. A request at 43200001 ms, just after
  the 12 hours, whose search is rejected sends the search and answers with status 500:
  the entry has expired, so the first lookup of the handler misses, and the lookup of
  the \<^verbatim>\<open>catch\<close> block, made by the same \<^verbatim>\<open>get\<close> at a later time, misses again,
  although the entry is still in the store. Within the 12 hours the request is answered
  from the cache and no search is sent, so none can fail. The \<^verbatim>\<open>catch\<close> block by
  itself would serve a live entry with the marker of a stale answer.
\<close>

theorem stale_fallback_not_served:
  "populated = nc_set 0 ''beginner'' example_files Map.empty
   \<and> fetch_fails (Some (Rejected, 10))
   \<and> pgn_files ordinal_compare (Some ''beginner'') (Some (Rejected, 10)) 43200001 populated
       = ([Query ''folder:beginner AND format:pgn'', Respond fetch_failed], populated)
   \<and> status fetch_failed = 500
   \<and> pgn_files ordinal_compare (Some ''beginner'') (Some (Rejected, 10)) 1000 populated
       = ([Respond \<lparr>status = 200, headers = [], body = Files example_files\<rparr>], populated)
   \<and> pgn_files_catch ''beginner'' 1000 populated
       = ([Respond \<lparr>status = 200, headers = [(''X-Served-From-Stale-Cache'', ''true'')],
                    body = Files example_files\<rparr>], populated)
   \<and> pgn_files_catch ''beginner'' 43200001 populated = ([Respond fetch_failed], populated)"
  using pgn_files_failure[OF valid_beginner populated_expired rejected_fails, of ordinal_compare]
    pgn_files_hit[OF valid_beginner populated_live, of ordinal_compare "Some (Rejected, 10)"]
    pgn_files_catch_live[OF populated_live] pgn_files_catch_miss[OF populated_expired]
  by (simp add: rejected_fails search_expression_def fetch_failed_def)
    (simp add: populated_def)

text \<open>
  Claim C5. When the search of a request fails (it is rejected, the timer of 8 seconds
  wins, or the reply is malformed), the request leaves the cache as it found it: it
  writes no value and removes no entry, not even an expired one. A search that succeeds
  within the 8 seconds stores the classified list under the level.
\<close>

theorem failed_fetch_cache:
  assumes "fetch_fails up"
  shows "snd (pgn_files lc level up now c) = c
     \<and> (d < 8000 \<and> valid_level l \<and> fst (nc_get now l c) = None \<longrightarrow>
           snd (pgn_files lc (Some l) (Some (Resources rs, d)) now c)
             = nc_set (now + d) l (classify lc rs) c)"
proof -
  have a: "snd (pgn_files lc level up now c) = c"
  proof (cases "level = None \<or> level = Some [] \<or> (\<exists>l. level = Some l \<and> \<not> valid_level l)")
    case True
    show ?thesis unfolding pgn_files_invalid[OF True] by simp
  next
    case False
    then obtain k where k: "level = Some k" "valid_level k" by auto
    show ?thesis
    proof (cases "fst (nc_get now k c)")
      case None
      show ?thesis unfolding k pgn_files_failure[OF k(2) None assms] by simp
    next
      case (Some files)
      show ?thesis unfolding k pgn_files_hit[OF k(2) Some] by simp
    qed
  qed
  have b: "snd (pgn_files lc (Some l) (Some (Resources rs, d)) now c)
             = nc_set (now + d) l (classify lc rs) c"
    if "d < 8000" "valid_level l" "fst (nc_get now l c) = None"
    unfolding pgn_files_success[OF that(2) that(3) refl that(1)] by simp
  show ?thesis using a b by blast
qed

theorem failed_fetch_cache_witness:
  "fetch_fails (Some (Rejected, 10)) \<and> fetch_fails None \<and> fetch_fails (Some (Malformed, 10))
   \<and> fetch_fails (Some (Resources example_resources, 9000))
   \<and> fst (pgn_files ordinal_compare (Some ''beginner'') (Some (Rejected, 10)) 43200001 populated)
       = [Query ''folder:beginner AND format:pgn'', Respond fetch_failed]
   \<and> snd (pgn_files ordinal_compare (Some ''beginner'') (Some (Rejected, 10)) 43200001 populated)
       = populated
   \<and> populated ''beginner'' = Some \<lparr>entry_t = 43200000, entry_v = example_files\<rparr>
   \<and> snd (pgn_files ordinal_compare (Some ''advanced'') None 5 populated) = populated
   \<and> (10::nat) < 8000 \<and> valid_level ''beginner'' \<and> fst (nc_get 43200001 ''beginner'' populated) = None
   \<and> snd (pgn_files ordinal_compare (Some ''beginner'') (Some (Resources example_resources, 10)) 43200001 populated)
       = nc_set 43200011 ''beginner'' example_files populated"
proof -
  have f: "fetch_fails None" "fetch_fails (Some (Malformed, 10))"
    "fetch_fails (Some (Resources example_resources, 9000))"
    by (simp_all add: fetch_fails_def race_def)
  show ?thesis
    using failed_fetch_cache[OF rejected_fails, where lc = ordinal_compare
        and level = "Some ''beginner''" and now = 43200001 and c = populated
        and d = 10 and l = "''beginner''" and rs = example_resources]
      failed_fetch_cache[OF f(1), where lc = ordinal_compare
        and level = "Some ''advanced''" and now = 5 and c = populated]
      pgn_files_failure[OF valid_beginner populated_expired rejected_fails, of ordinal_compare]
      valid_beginner rejected_fails populated_entry populated_expired f
    by (simp add: example_files_def search_expression_def)
qed


section \<open>The handler of POST /api/clear-cache\<close>

text \<open>
  Claim C8. A request to clear the cache whose \<^verbatim>\<open>apiKey\<close> differs from the configured
  secret is answered with status 401 and leaves the cache as it is. With the right key
  and a level, the entry of that level is removed and the entry of every other key is
  unchanged; with the right key and no level, every entry is removed. An entry that was
  set and then deleted is absent for \<^verbatim>\<open>get\<close>.
\<close>

theorem clear_cache_effect:
  "(apiKey \<noteq> secret \<longrightarrow>
      clear_cache secret level apiKey c
        = ([Respond \<lparr>status = 401, headers = [], body = Error ''Unauthorized'' None\<rparr>], c))
   \<and> (apiKey = secret \<and> level = Some l \<and> l \<noteq> [] \<longrightarrow>
        map status (responses (fst (clear_cache secret level apiKey c))) = [200]
      \<and> snd (clear_cache secret level apiKey c) l = None
      \<and> (\<forall>k. k \<noteq> l \<longrightarrow> snd (clear_cache secret level apiKey c) k = c k))
   \<and> (apiKey = secret \<and> (level = None \<or> level = Some []) \<longrightarrow>
        map status (responses (fst (clear_cache secret level apiKey c))) = [200]
      \<and> snd (clear_cache secret level apiKey c) = Map.empty)
   \<and> fst (nc_get later l (nc_del l (nc_set now l L c))) = None"
  by (auto simp: clear_cache_def nc_del_def nc_flushAll_def responses_def nc_get_def)

theorem clear_cache_effect_witness:
  "Some ''guess'' \<noteq> Some ''s3cret''
   \<and> clear_cache (Some ''s3cret'') (Some ''beginner'') (Some ''guess'') populated
       = ([Respond \<lparr>status = 401, headers = [], body = Error ''Unauthorized'' None\<rparr>], populated)
   \<and> snd (clear_cache (Some ''s3cret'') (Some ''beginner'') (Some ''s3cret'')
            (nc_set 5 ''advanced'' [] populated)) ''beginner'' = None
   \<and> snd (clear_cache (Some ''s3cret'') (Some ''beginner'') (Some ''s3cret'')
            (nc_set 5 ''advanced'' [] populated)) ''advanced''
       = Some \<lparr>entry_t = 43200005, entry_v = []\<rparr>
   \<and> snd (clear_cache (Some ''s3cret'') None (Some ''s3cret'') (nc_set 5 ''advanced'' [] populated))
       = Map.empty"
  using clear_cache_effect[of "Some ''guess''" "Some ''s3cret''" "Some ''beginner''" populated "''beginner''"]
    clear_cache_effect[of "Some ''s3cret''" "Some ''s3cret''" "Some ''beginner''"
      "nc_set 5 ''advanced'' [] populated" "''beginner''"]
    clear_cache_effect[of "Some ''s3cret''" "Some ''s3cret''" None
      "nc_set 5 ''advanced'' [] populated" "''beginner''"]
  by (simp add: nc_set_def stdTTL_def)

text \<open>
  Claim C10. When no admin secret is configured, a request without \<^verbatim>\<open>apiKey\<close> passes
  the test of the key: it is answered with status 200, and it flushes the whole cache
  or, with a level, deletes the entry of that level.
\<close>

theorem clear_cache_unconfigured:
  "snd (clear_cache None None None c) = Map.empty
   \<and> snd (clear_cache None (Some (x # xs)) None c) = c(x # xs := None)
   \<and> map status (responses (fst (clear_cache None level None c))) = [200]
   \<and> clear_cache None None None populated
       = ([Respond \<lparr>status = 200, headers = [], body = Success ''All cache cleared''\<rparr>], Map.empty)
   \<and> clear_cache None (Some ''beginner'') None populated
       = ([Respond \<lparr>status = 200, headers = [], body = Success ''Cache cleared for beginner''\<rparr>],
          Map.empty)"
  by (auto simp: clear_cache_def nc_del_def nc_flushAll_def responses_def populated_del
      split: option.splits)


section \<open>The handler of GET /api/prefetch\<close>

lemma prefetch_start_step:
  "prefetch_start now (sent, pending, c) (i, k) =
     (if fst (nc_has now k c) then (sent, pending, c)
      else (sent @ [search_expression k], pending @ [(i, k)], c))"
  by (simp add: prefetch_start_def nc_has_def split: prod.splits option.splits)

lemma prefetch_checks:
  "foldl (prefetch_start now) (sent, pending, c) iks =
     (sent @ map search_expression (filter (\<lambda>k. \<not> fst (nc_has now k c)) (map snd iks)),
      pending @ filter (\<lambda>ik. \<not> fst (nc_has now (snd ik) c)) iks,
      c)"
proof (induction iks arbitrary: sent pending)
  case Nil
  then show ?case by simp
next
  case (Cons ik iks)
  obtain i k0 where ik: "ik = (i, k0)" by (cases ik)
  show ?case
    by (cases "fst (nc_has now k0 c)") (simp_all add: ik prefetch_start_step Cons.IH)
qed

lemma prefetch_resume_other:
  "fst x \<noteq> k \<Longrightarrow> prefetch_resume lc now c x k = c k"
  by (cases x) (auto simp: prefetch_resume_def nc_set_def split: reply.splits)

lemma prefetch_resume_failed:
  "\<forall>rs. fst (snd x) \<noteq> Resources rs \<Longrightarrow> prefetch_resume lc now c x = c"
  by (cases x) (auto simp: prefetch_resume_def split: reply.splits)

lemma prefetch_resume_cong:
  "c k = c' k \<Longrightarrow> prefetch_resume lc now c x k = prefetch_resume lc now c' x k"
  by (cases x) (auto simp: prefetch_resume_def nc_set_def split: reply.splits)

lemma foldl_resume_cong:
  "c k = c' k \<Longrightarrow> foldl (prefetch_resume lc now) c xs k = foldl (prefetch_resume lc now) c' xs k"
proof (induction xs arbitrary: c c')
  case Nil
  then show ?case by simp
next
  case (Cons x xs)
  show ?case
  proof -
    have "prefetch_resume lc now c x k = prefetch_resume lc now c' x k"
      using Cons.prems by (rule prefetch_resume_cong)
    then have "foldl (prefetch_resume lc now) (prefetch_resume lc now c x) xs k
        = foldl (prefetch_resume lc now) (prefetch_resume lc now c' x) xs k"
      by (rule Cons.IH)
    then show ?thesis by simp
  qed
qed

lemma foldl_resume_filter:
  "foldl (prefetch_resume lc now) c xs k
     = foldl (prefetch_resume lc now) c (filter (\<lambda>x. fst x = k) xs) k"
proof (induction xs arbitrary: c)
  case Nil
  then show ?case by simp
next
  case (Cons x xs)
  show ?case
  proof (cases "fst x = k")
    case True
    then show ?thesis using Cons.IH by simp
  next
    case False
    have "foldl (prefetch_resume lc now) (prefetch_resume lc now c x) xs k
        = foldl (prefetch_resume lc now) c xs k"
      by (rule foldl_resume_cong) (rule prefetch_resume_other[OF False])
    then show ?thesis using False Cons.IH by simp
  qed
qed

lemma foldl_resume_no_success:
  "\<forall>x\<in>set xs. fst x = k \<longrightarrow> (\<forall>rs. fst (snd x) \<noteq> Resources rs)
     \<Longrightarrow> foldl (prefetch_resume lc now) c xs k = c k"
proof (induction xs arbitrary: c)
  case Nil
  then show ?case by simp
next
  case (Cons x xs)
  have "prefetch_resume lc now c x k = c k"
  proof (cases "fst x = k")
    case True
    with Cons.prems have "\<forall>rs. fst (snd x) \<noteq> Resources rs" by simp
    then show ?thesis by (simp add: prefetch_resume_failed)
  next
    case False
    then show ?thesis by (rule prefetch_resume_other)
  qed
  moreover have "foldl (prefetch_resume lc now) (prefetch_resume lc now c x) xs k
       = prefetch_resume lc now c x k"
    using Cons.prems by (intro Cons.IH) simp
  ultimately show ?case by simp
qed

lemma filter_settled:
  "filter (\<lambda>x. fst x = k) (settled ups pending)
     = settled ups (filter (\<lambda>il. snd il = k) pending)"
proof -
  have "filter (\<lambda>x. fst x = k)
          (concat (map (\<lambda>il. case ups (fst il) of None \<Rightarrow> [] | Some (r, d) \<Rightarrow> [(snd il, r, d)]) pending))
      = concat (map (\<lambda>il. case ups (fst il) of None \<Rightarrow> [] | Some (r, d) \<Rightarrow> [(snd il, r, d)])
          (filter (\<lambda>il. snd il = k) pending))"
    by (induction pending) (auto split: option.splits)
  then show ?thesis
    by (simp add: settled_def filter_sort)
qed

lemma settled_cong:
  "\<forall>il\<in>set pending. ups' (fst il) = ups (fst il) \<Longrightarrow> settled ups' pending = settled ups pending"
proof -
  assume "\<forall>il\<in>set pending. ups' (fst il) = ups (fst il)"
  then have "map (\<lambda>il. case ups' (fst il) of None \<Rightarrow> [] | Some (r, d) \<Rightarrow> [(snd il, r, d)]) pending
      = map (\<lambda>il. case ups (fst il) of None \<Rightarrow> [] | Some (r, d) \<Rightarrow> [(snd il, r, d)]) pending"
    by (intro map_cong) auto
  then show ?thesis unfolding settled_def by (simp only:)
qed

lemma settled_set:
  "x \<in> set (settled ups pending)
     \<Longrightarrow> \<exists>i. (i, fst x) \<in> set pending \<and> ups i = Some (snd x)"
  by (auto simp: settled_def split: option.splits)

lemma foldl_resume_successes:
  "foldl (prefetch_resume lc now) c xs
     = foldl (prefetch_resume lc now) c (filter (\<lambda>x. \<exists>rs. fst (snd x) = Resources rs) xs)"
proof (induction xs arbitrary: c)
  case Nil
  then show ?case by simp
next
  case (Cons x xs)
  show ?case
  proof (cases "\<exists>rs. fst (snd x) = Resources rs")
    case True
    then show ?thesis using Cons.IH by simp
  next
    case False
    then have "prefetch_resume lc now c x = c"
      by (intro prefetch_resume_failed) simp
    with False show ?thesis using Cons.IH by simp
  qed
qed

lemma settled_successes:
  assumes "ups i = Some (r, d)" "\<forall>rs. r \<noteq> Resources rs"
  shows "filter (\<lambda>x. \<exists>rs. fst (snd x) = Resources rs) (settled (ups(i := None)) pending)
       = filter (\<lambda>x. \<exists>rs. fst (snd x) = Resources rs) (settled ups pending)"
proof -
  have "filter (\<lambda>x. \<exists>rs. fst (snd x) = Resources rs)
          (case (ups(i := None)) (fst il) of None \<Rightarrow> [] | Some (r, d) \<Rightarrow> [(snd il, r, d)])
      = filter (\<lambda>x. \<exists>rs. fst (snd x) = Resources rs)
          (case ups (fst il) of None \<Rightarrow> [] | Some (r, d) \<Rightarrow> [(snd il, r, d)])" for il :: "nat \<times> string"
    using assms by (cases "fst il = i") simp_all
  then have "map (\<lambda>il. filter (\<lambda>x. \<exists>rs. fst (snd x) = Resources rs)
          (case (ups(i := None)) (fst il) of None \<Rightarrow> [] | Some (r, d) \<Rightarrow> [(snd il, r, d)])) pending
      = map (\<lambda>il. filter (\<lambda>x. \<exists>rs. fst (snd x) = Resources rs)
          (case ups (fst il) of None \<Rightarrow> [] | Some (r, d) \<Rightarrow> [(snd il, r, d)])) pending"
    by simp
  then show ?thesis
    unfolding settled_def filter_sort filter_concat map_map comp_def by (simp only:)
qed

lemma prefetch_unfold:
  assumes "s \<noteq> []"
  shows "prefetch lc (Some s) ups now c =
     (Respond \<lparr>status = 200, headers = [],
         body = PrefetchAck ''Prefetch request received'' (levels_to_prefetch s)\<rparr>
       # map (\<lambda>k. Query (search_expression k))
           (filter (\<lambda>k. \<not> fst (nc_has now k c)) (levels_to_prefetch s)),
      foldl (prefetch_resume lc now) c (settled ups (awaited now c (levels_to_prefetch s))))"
proof -
  define ks where "ks = take 5 (split_on CHR '','' s)"
  have z: "map snd (zip [0..<length ks] ks) = ks"
    by simp
  show ?thesis
    using assms
    by (simp add: prefetch_def Let_def prefetch_checks z awaited_def levels_to_prefetch_def
        comp_def del: length_take flip: ks_def)
qed

lemma awaited_nth: "(i, k) \<in> set (awaited now c ks) \<Longrightarrow> i < length ks \<and> ks ! i = k"
  by (auto simp: awaited_def in_set_zip)

lemma inj_search_expression: "search_expression k = search_expression k' \<Longrightarrow> k = k'"
  by (simp add: search_expression_def)

lemma length_levels_to_prefetch: "length (levels_to_prefetch s) \<le> 5"
  by (simp add: levels_to_prefetch_def)

lemma example_keys:
  "levels_to_prefetch example_levels = [''beginner'', ''advanced'', ''bad key!'', ''a'', ''b'']"
  by (simp add: levels_to_prefetch_def example_levels_def)

lemma example_live: "fst (nc_has 1000 k populated) = (k = ''beginner'')"
  by (simp add: nc_has_fst populated_def nc_set_def expired_def stdTTL_def)

lemma example_expired: "\<not> fst (nc_has 43200001 k populated)"
  by (simp add: nc_has_fst populated_def nc_set_def expired_def stdTTL_def)

lemma upt_5: "[0..<5] = [0, 1, 2, 3, 4]"
  by (simp add: upt_rec)

lemma example_awaited:
  "awaited 1000 populated (levels_to_prefetch example_levels)
     = [(1, ''advanced''), (2, ''bad key!''), (3, ''a''), (4, ''b'')]"
  by (simp add: awaited_def example_keys example_live upt_5)

lemma example_settled:
  "settled example_ups (awaited 1000 populated (levels_to_prefetch example_levels))
     = [(''advanced'', Rejected, 20), (''bad key!'', Resources example_resources, 30)]"
  by (simp add: example_awaited settled_def example_ups_def)

lemma example_prefetch_cache:
  "snd (prefetch ordinal_compare (Some example_levels) example_ups 1000 populated)
     = nc_set 1030 ''bad key!'' example_files populated"
proof -
  have ne: "example_levels \<noteq> []" by (simp add: example_levels_def)
  show ?thesis
    unfolding prefetch_unfold[OF ne] example_settled
    by (simp add: prefetch_resume_def example_files_def)
qed

lemma prefetch_sends:
  assumes "s \<noteq> []" "k \<in> set (levels_to_prefetch s)" "\<not> fst (nc_has now k c)"
  shows "Query (search_expression k) \<in> set (fst (prefetch lc (Some s) ups now c))"
  using assms by (simp add: prefetch_unfold)

text \<open>
  Claim C6. A prefetch request with a list of levels handles at most the first five of
  them. Its trace is the acknowledgment, which lists those levels, followed by one
  search for each of them that the cache does not hold, in their order: the response is
  sent before any search, there is no second response, and a level that is in the cache
  gets no search and keeps its entry. A search that fails is swallowed: a level none of
  whose searches brings resources keeps the entry it had, an expired one too, or stays
  without one, and a reply that is rejected or malformed leaves the whole outcome of the
  request, trace and cache, as if the search had never been answered. The entry of a
  level depends only on the replies to the searches for that level.
\<close>

theorem prefetch_behaviour:
  assumes "s \<noteq> []"
  shows "length (levels_to_prefetch s) \<le> 5
    \<and> fst (prefetch lc (Some s) ups now c)
        = Respond \<lparr>status = 200, headers = [],
            body = PrefetchAck ''Prefetch request received'' (levels_to_prefetch s)\<rparr>
          # map (\<lambda>k. Query (search_expression k))
              (filter (\<lambda>k. \<not> fst (nc_has now k c)) (levels_to_prefetch s))
    \<and> length (queries (fst (prefetch lc (Some s) ups now c))) \<le> 5
    \<and> length (responses (fst (prefetch lc (Some s) ups now c))) = 1
    \<and> (fst (nc_has now kc c) \<longrightarrow>
          search_expression kc \<notin> set (queries (fst (prefetch lc (Some s) ups now c)))
          \<and> snd (prefetch lc (Some s) ups now c) kc = c kc)
    \<and> ((\<forall>i < length (levels_to_prefetch s). levels_to_prefetch s ! i = kf \<longrightarrow>
                (\<forall>rs d. ups i \<noteq> Some (Resources rs, d)))
          \<longrightarrow> snd (prefetch lc (Some s) ups now c) kf = c kf)
    \<and> ((\<forall>i < length (levels_to_prefetch s). \<forall>rs d. ups i \<noteq> Some (Resources rs, d))
          \<longrightarrow> snd (prefetch lc (Some s) ups now c) = c)
    \<and> (ups i = Some (r, d) \<and> (\<forall>rs. r \<noteq> Resources rs)
          \<longrightarrow> prefetch lc (Some s) (ups(i := None)) now c = prefetch lc (Some s) ups now c)
    \<and> ((\<forall>i < length (levels_to_prefetch s). levels_to_prefetch s ! i = ko \<longrightarrow> ups' i = ups i)
          \<longrightarrow> snd (prefetch lc (Some s) ups' now c) ko = snd (prefetch lc (Some s) ups now c) ko)"
proof -
  define ks where "ks = levels_to_prefetch s"
  define qs where "qs = filter (\<lambda>k. \<not> fst (nc_has now k c)) ks"
  have tr: "fst (prefetch lc (Some s) u now c)
        = Respond \<lparr>status = 200, headers = [],
            body = PrefetchAck ''Prefetch request received'' ks\<rparr>
          # map (\<lambda>k. Query (search_expression k)) qs" for u
    by (simp add: prefetch_unfold[OF assms] ks_def qs_def)
  have ca: "snd (prefetch lc (Some s) u now c)
        = foldl (prefetch_resume lc now) c (settled u (awaited now c ks))" for u
    by (simp add: prefetch_unfold[OF assms] ks_def)
  have qe: "queries (fst (prefetch lc (Some s) ups now c)) = map search_expression qs"
    unfolding tr by (induction qs) (simp_all add: queries_def)
  have re: "length (responses (fst (prefetch lc (Some s) ups now c))) = 1"
    unfolding tr by (induction qs) (simp_all add: responses_def)
  have p1: "length ks \<le> 5" unfolding ks_def by (rule length_levels_to_prefetch)
  have "length qs \<le> length ks" unfolding qs_def by (rule length_filter_le)
  with p1 have p3: "length (queries (fst (prefetch lc (Some s) ups now c))) \<le> 5"
    by (simp add: qe)
  have nosucc: "snd (prefetch lc (Some s) ups now c) k = c k"
    if h: "\<forall>i < length ks. ks ! i = k \<longrightarrow> (\<forall>rs d. ups i \<noteq> Some (Resources rs, d))" for k
    unfolding ca
  proof (rule foldl_resume_no_success, intro ballI impI allI)
    fix x rs
    assume x: "x \<in> set (settled ups (awaited now c ks))" and k: "fst x = k"
    from settled_set[OF x] obtain i where
      i: "(i, fst x) \<in> set (awaited now c ks)" "ups i = Some (snd x)" by blast
    from awaited_nth[OF i(1)] k have "i < length ks" "ks ! i = k" by simp_all
    with h i(2) have "\<forall>rs d. snd x \<noteq> (Resources rs, d)" by auto
    then show "fst (snd x) \<noteq> Resources rs"
      by (cases "snd x") auto
  qed
  have allfail: "snd (prefetch lc (Some s) ups now c) = c"
    if h: "\<forall>i < length ks. \<forall>rs d. ups i \<noteq> Some (Resources rs, d)"
  proof (rule ext)
    fix k
    show "snd (prefetch lc (Some s) ups now c) k = c k"
      by (rule nosucc) (use h in blast)
  qed
  have p4: "search_expression k \<notin> set (queries (fst (prefetch lc (Some s) ups now c)))
          \<and> snd (prefetch lc (Some s) ups now c) k = c k" if live: "fst (nc_has now k c)" for k
  proof
    show "search_expression k \<notin> set (queries (fst (prefetch lc (Some s) ups now c)))"
      unfolding qe qs_def using live by (auto dest: inj_search_expression)
    have "\<forall>x\<in>set (settled ups (awaited now c ks)). fst x = k \<longrightarrow> (\<forall>rs. fst (snd x) \<noteq> Resources rs)"
    proof (intro ballI impI)
      fix x assume x: "x \<in> set (settled ups (awaited now c ks))" and k: "fst x = k"
      from settled_set[OF x] obtain i where "(i, fst x) \<in> set (awaited now c ks)" by blast
      with k live have False by (auto simp: awaited_def)
      then show "\<forall>rs. fst (snd x) \<noteq> Resources rs" ..
    qed
    then show "snd (prefetch lc (Some s) ups now c) k = c k"
      unfolding ca by (rule foldl_resume_no_success)
  qed
  have sw: "prefetch lc (Some s) (ups(i := None)) now c = prefetch lc (Some s) ups now c"
    if "ups i = Some (r, d)" "\<forall>rs. r \<noteq> Resources rs"
  proof -
    have "snd (prefetch lc (Some s) (ups(i := None)) now c) = snd (prefetch lc (Some s) ups now c)"
      unfolding ca
      using foldl_resume_successes[of lc now c "settled (ups(i := None)) (awaited now c ks)"]
        foldl_resume_successes[of lc now c "settled ups (awaited now c ks)"]
        settled_successes[where ups = ups and i = i and r = r and d = d
          and pending = "awaited now c ks", OF that]
      by simp
    moreover have "fst (prefetch lc (Some s) (ups(i := None)) now c) = fst (prefetch lc (Some s) ups now c)"
      unfolding tr by simp
    ultimately show ?thesis by (simp add: prod_eq_iff)
  qed
  have p7: "snd (prefetch lc (Some s) ups' now c) k = snd (prefetch lc (Some s) ups now c) k"
    if h: "\<forall>i < length ks. ks ! i = k \<longrightarrow> ups' i = ups i" for k ups'
  proof -
    have "\<forall>il\<in>set (filter (\<lambda>il. snd il = k) (awaited now c ks)). ups' (fst il) = ups (fst il)"
      using h awaited_nth[of _ _ now c ks] by auto
    then have "settled ups' (filter (\<lambda>il. snd il = k) (awaited now c ks))
        = settled ups (filter (\<lambda>il. snd il = k) (awaited now c ks))"
      by (rule settled_cong)
    then have "filter (\<lambda>x. fst x = k) (settled ups' (awaited now c ks))
        = filter (\<lambda>x. fst x = k) (settled ups (awaited now c ks))"
      by (simp add: filter_settled)
    then show ?thesis
      unfolding ca
      using foldl_resume_filter[of lc now c "settled ups' (awaited now c ks)" k]
        foldl_resume_filter[of lc now c "settled ups (awaited now c ks)" k]
      by simp
  qed
  show ?thesis
    using p1 tr[of ups] p3 re p4[of kc] nosucc[of kf] allfail sw p7[of ko ups']
    unfolding ks_def qs_def by blast
qed

theorem prefetch_behaviour_witness:
  "example_levels \<noteq> []
   \<and> fst (prefetch ordinal_compare (Some example_levels) example_ups 1000 populated)
       = [Respond \<lparr>status = 200, headers = [],
            body = PrefetchAck ''Prefetch request received''
                     [''beginner'', ''advanced'', ''bad key!'', ''a'', ''b'']\<rparr>,
          Query ''folder:advanced AND format:pgn'', Query ''folder:bad key! AND format:pgn'',
          Query ''folder:a AND format:pgn'', Query ''folder:b AND format:pgn'']
   \<and> fst (nc_has 1000 ''beginner'' populated)
   \<and> snd (prefetch ordinal_compare (Some example_levels) example_ups 1000 populated) ''beginner''
       = populated ''beginner''
   \<and> example_ups 1 = Some (Rejected, 20)
   \<and> snd (prefetch ordinal_compare (Some example_levels) example_ups 1000 populated) ''advanced''
       = populated ''advanced''
   \<and> prefetch ordinal_compare (Some example_levels) (example_ups(1 := None)) 1000 populated
       = prefetch ordinal_compare (Some example_levels) example_ups 1000 populated
   \<and> snd (prefetch ordinal_compare (Some example_levels) (example_ups(0 := None)) 1000 populated) ''bad key!''
       = snd (prefetch ordinal_compare (Some example_levels) example_ups 1000 populated) ''bad key!''
   \<and> snd (prefetch ordinal_compare (Some example_levels) example_ups 1000 populated)
       = nc_set 1030 ''bad key!'' example_files populated
   \<and> \<not> fst (nc_has 43200001 ''beginner'' populated)
   \<and> example_ups 0 = Some (Rejected, 15)
   \<and> fst (prefetch ordinal_compare (Some example_levels) example_ups 43200001 populated)
       = [Respond \<lparr>status = 200, headers = [],
            body = PrefetchAck ''Prefetch request received''
                     [''beginner'', ''advanced'', ''bad key!'', ''a'', ''b'']\<rparr>,
          Query ''folder:beginner AND format:pgn'',
          Query ''folder:advanced AND format:pgn'', Query ''folder:bad key! AND format:pgn'',
          Query ''folder:a AND format:pgn'', Query ''folder:b AND format:pgn'']
   \<and> snd (prefetch ordinal_compare (Some example_levels) example_ups 43200001 populated) ''beginner''
       = Some \<lparr>entry_t = 43200000, entry_v = example_files\<rparr>
   \<and> snd (prefetch ordinal_compare (Some example_levels) (\<lambda>i. if i < 2 then example_ups i else None)
            43200001 populated) = populated"
proof -
  have ne: "example_levels \<noteq> []" by (simp add: example_levels_def)
  have h1: "\<forall>i < length (levels_to_prefetch example_levels).
      levels_to_prefetch example_levels ! i = ''advanced'' \<longrightarrow>
        (\<forall>rs d. example_ups i \<noteq> Some (Resources rs, d))"
    unfolding example_keys by (auto simp: example_ups_def nth_Cons' split: if_splits)
  have h0: "\<forall>i < length (levels_to_prefetch example_levels).
      levels_to_prefetch example_levels ! i = ''beginner'' \<longrightarrow>
        (\<forall>rs d. example_ups i \<noteq> Some (Resources rs, d))"
    unfolding example_keys by (auto simp: example_ups_def nth_Cons' split: if_splits)
  have h2: "\<forall>i < length (levels_to_prefetch example_levels).
      levels_to_prefetch example_levels ! i = ''bad key!'' \<longrightarrow>
        (example_ups(0 := None)) i = example_ups i"
    unfolding example_keys by (auto simp: nth_Cons' split: if_splits)
  have h3: "\<forall>i < length (levels_to_prefetch example_levels). \<forall>rs d.
      (if i < 2 then example_ups i else None) \<noteq> Some (Resources rs, d)"
    by (auto simp: example_ups_def)
  have u: "example_ups 1 = Some (Rejected, 20)" "example_ups 0 = Some (Rejected, 15)"
    by (simp_all add: example_ups_def)
  note early = prefetch_behaviour[OF ne, where lc = ordinal_compare and ups = example_ups
        and now = 1000 and c = populated and kc = "''beginner''" and kf = "''advanced''"
        and ko = "''bad key!''" and ups' = "example_ups(0 := None)"
        and i = 1 and r = Rejected and d = 20]
  note late = prefetch_behaviour[OF ne, where lc = ordinal_compare and ups = example_ups
        and now = 43200001 and c = populated and kf = "''beginner''"]
  note none = prefetch_behaviour[OF ne, where lc = ordinal_compare
        and ups = "\<lambda>i. if i < 2 then example_ups i else None"
        and now = 43200001 and c = populated]
  have a: "fst (prefetch ordinal_compare (Some example_levels) example_ups 1000 populated)
       = [Respond \<lparr>status = 200, headers = [],
            body = PrefetchAck ''Prefetch request received''
                     [''beginner'', ''advanced'', ''bad key!'', ''a'', ''b'']\<rparr>,
          Query ''folder:advanced AND format:pgn'', Query ''folder:bad key! AND format:pgn'',
          Query ''folder:a AND format:pgn'', Query ''folder:b AND format:pgn'']"
    using early by (simp add: example_keys example_live search_expression_def)
  have b: "snd (prefetch ordinal_compare (Some example_levels) example_ups 1000 populated) ''beginner''
       = populated ''beginner''"
    using early by (simp add: example_live)
  have c: "snd (prefetch ordinal_compare (Some example_levels) example_ups 1000 populated) ''advanced''
       = populated ''advanced''"
    using early h1 by blast
  have d: "prefetch ordinal_compare (Some example_levels) (example_ups(1 := None)) 1000 populated
       = prefetch ordinal_compare (Some example_levels) example_ups 1000 populated"
    using early u by blast
  have e: "snd (prefetch ordinal_compare (Some example_levels) (example_ups(0 := None)) 1000 populated) ''bad key!''
       = snd (prefetch ordinal_compare (Some example_levels) example_ups 1000 populated) ''bad key!''"
    using early h2 by blast
  have f: "fst (prefetch ordinal_compare (Some example_levels) example_ups 43200001 populated)
       = [Respond \<lparr>status = 200, headers = [],
            body = PrefetchAck ''Prefetch request received''
                     [''beginner'', ''advanced'', ''bad key!'', ''a'', ''b'']\<rparr>,
          Query ''folder:beginner AND format:pgn'',
          Query ''folder:advanced AND format:pgn'', Query ''folder:bad key! AND format:pgn'',
          Query ''folder:a AND format:pgn'', Query ''folder:b AND format:pgn'']"
    using late by (simp add: example_keys example_expired search_expression_def)
  have g: "snd (prefetch ordinal_compare (Some example_levels) example_ups 43200001 populated) ''beginner''
       = Some \<lparr>entry_t = 43200000, entry_v = example_files\<rparr>"
    using late h0 populated_entry by simp
  have h: "snd (prefetch ordinal_compare (Some example_levels) (\<lambda>i. if i < 2 then example_ups i else None)
            43200001 populated) = populated"
    using none h3 by blast
  show ?thesis
    using ne a b c d e f g h u example_prefetch_cache
    by (simp add: example_live example_expired)
qed

text \<open>
  Claim C9. The prefetch handler does not validate its levels: for a level among the
  first five that the cache does not hold and that fails the test of the main handler,
  the search with the level put verbatim into the expression is sent, whereas the main
  handler rejects the same level with status 400 and sends nothing. The level
  "bad key!" is such a level.
\<close>

theorem prefetch_no_validation:
  assumes "s \<noteq> []" "k \<in> set (levels_to_prefetch s)" "\<not> fst (nc_has now k c)" "\<not> valid_level k"
  shows "Query (''folder:'' @ k @ '' AND format:pgn'') \<in> set (fst (prefetch lc (Some s) ups now c))
       \<and> pgn_files lc (Some k) up now c
           = ([Respond (if k = [] then level_required else invalid_level)], c)
       \<and> queries (fst (pgn_files lc (Some k) up now c)) = []"
proof -
  have a: "Query (''folder:'' @ k @ '' AND format:pgn'') \<in> set (fst (prefetch lc (Some s) ups now c))"
    using prefetch_sends[OF assms(1,2,3)] by (simp add: search_expression_def)
  have b: "pgn_files lc (Some k) up now c
           = ([Respond (if k = [] then level_required else invalid_level)], c)"
    using pgn_files_invalid[of "Some k" lc up now c] assms(4) by simp
  show ?thesis
    using a unfolding b by (simp add: queries_def)
qed

theorem prefetch_no_validation_witness:
  "''bad key!'' \<noteq> [] \<and> ''bad key!'' \<in> set (levels_to_prefetch ''bad key!'')
   \<and> \<not> fst (nc_has 0 ''bad key!'' Map.empty) \<and> \<not> valid_level ''bad key!''
   \<and> Query ''folder:bad key! AND format:pgn''
        \<in> set (fst (prefetch ordinal_compare (Some ''bad key!'') (\<lambda>i. None) 0 Map.empty))
   \<and> fst (prefetch ordinal_compare (Some ''bad key!'') (\<lambda>i. None) 0 Map.empty)
       = [Respond \<lparr>status = 200, headers = [],
            body = PrefetchAck ''Prefetch request received'' [''bad key!'']\<rparr>,
          Query ''folder:bad key! AND format:pgn'']
   \<and> pgn_files ordinal_compare (Some ''bad key!'') None 0 Map.empty = ([Respond invalid_level], Map.empty)"
proof -
  have h: "''bad key!'' \<noteq> []" "''bad key!'' \<in> set (levels_to_prefetch ''bad key!'')"
    "\<not> fst (nc_has 0 ''bad key!'' Map.empty)" "\<not> valid_level ''bad key!''"
    by (simp_all add: levels_to_prefetch_def nc_has_def valid_level_def is_word_char_def)
  have t: "fst (prefetch ordinal_compare (Some ''bad key!'') (\<lambda>i. None) 0 Map.empty)
       = [Respond \<lparr>status = 200, headers = [],
            body = PrefetchAck ''Prefetch request received'' [''bad key!'']\<rparr>,
          Query ''folder:bad key! AND format:pgn'']"
    by (simp add: prefetch_unfold levels_to_prefetch_def nc_has_def search_expression_def)
  show ?thesis
    using prefetch_no_validation[OF h, of ordinal_compare "\<lambda>i. None" None] h t
    by simp
qed

end
